theory Spec2Isabelle
  imports Main "HOL-Library.Sublist"
begin

section \<open>The example documentation generator of Enaml\<close>

text \<open>
  A shallow embedding of \<^verbatim>\<open>docs/source/examples/example_doc_generator.py\<close>.
  A Python \<^verbatim>\<open>str\<close> is a \<^typ>\<open>string\<close>: a list of characters, one \<^typ>\<open>char\<close> per
  code point (code points from 256 on are outside the model). Exceptions are values of
  the type \<open>error\<close>.
\<close>

subsection \<open>Python's string methods\<close>

datatype error =
    IndexError
  | FileNotFoundError
  | IsADirectoryError
  | NotADirectoryError
  | Uncaught string

text \<open>\<^verbatim>\<open>s.startswith(p)\<close> is \<^term>\<open>prefix p s\<close> and \<^verbatim>\<open>s.endswith(p)\<close> is \<^term>\<open>suffix p s\<close>.\<close>

text \<open>
  \<^verbatim>\<open>s.find(sub)\<close>: the lowest index at which \<open>sub\<close> occurs in \<open>s\<close>; Python
  returns \<open>-1\<close> when there is none, which is \<open>None\<close> in \<open>str_find\<close> and \<open>-1\<close> in
  \<open>py_find\<close>.
\<close>

fun str_find :: "string \<Rightarrow> string \<Rightarrow> nat option" where
  "str_find [] sub = (if sub = [] then Some 0 else None)"
| "str_find (c # cs) sub =
     (if prefix sub (c # cs) then Some 0 else map_option Suc (str_find cs sub))"

definition py_find :: "string \<Rightarrow> string \<Rightarrow> int" where
  "py_find s sub = (case str_find s sub of None \<Rightarrow> - 1 | Some i \<Rightarrow> int i)"

text \<open>
  The slices \<^verbatim>\<open>s[:i]\<close> and \<^verbatim>\<open>s[i:]\<close>: a negative index counts from the end
  and is clipped at the start of the string.
\<close>

definition slice_to :: "string \<Rightarrow> int \<Rightarrow> string" where
  "slice_to s i = (if i < 0 then take (nat (int (length s) + i)) s else take (nat i) s)"

definition slice_from :: "string \<Rightarrow> int \<Rightarrow> string" where
  "slice_from s i = (if i < 0 then drop (nat (int (length s) + i)) s else drop (nat i) s)"

text \<open>
  \<^verbatim>\<open>s.split(sep)\<close> for a non-empty separator: the pieces between the occurrences
  of \<open>sep\<close>, found from left to right without overlap. \<open>cur\<close> holds the characters
  of the piece being read. (Python raises ValueError on an empty separator; the one
  call of the program passes a literal of three characters.)
\<close>

function split_from :: "string \<Rightarrow> string \<Rightarrow> string \<Rightarrow> string list" where
  "split_from cur [] sep = [cur]"
| "split_from cur (c # cs) sep =
     (if sep \<noteq> [] \<and> prefix sep (c # cs)
      then cur # split_from [] (drop (length sep) (c # cs)) sep
      else split_from (cur @ [c]) cs sep)"
  by pat_completeness auto
termination
  by (relation "measure (\<lambda>(cur, s, sep). length s)") auto

definition str_split :: "string \<Rightarrow> string \<Rightarrow> string list" where
  "str_split s sep = split_from [] s sep"

text \<open>
  \<^verbatim>\<open>s.count(sub)\<close> for a non-empty \<open>sub\<close>: the number of occurrences of \<open>sub\<close>
  in \<open>s\<close>, from left to right without overlap.
\<close>

function count_sub :: "string \<Rightarrow> string \<Rightarrow> nat" where
  "count_sub [] sub = 0"
| "count_sub (c # cs) sub =
     (if sub \<noteq> [] \<and> prefix sub (c # cs)
      then Suc (count_sub (drop (length sub) (c # cs)) sub)
      else count_sub cs sub)"
  by pat_completeness auto
termination
  by (relation "measure (\<lambda>(s, sub). length s)") auto

text \<open>Indexing a list, \<^verbatim>\<open>xs[i]\<close> with \<open>i \<ge> 0\<close>: IndexError out of range.\<close>

definition getitem :: "'a list \<Rightarrow> nat \<Rightarrow> error + 'a" where
  "getitem xs i = (if i < length xs then Inr (xs ! i) else Inl IndexError)"

subsection \<open>extract_docstring\<close>

definition triple_quote :: string where
  "triple_quote = [CHR 0x22, CHR 0x22, CHR 0x22]"

definition extract_docstring :: "string \<Rightarrow> error + string" where
  "extract_docstring script_text = getitem (str_split script_text triple_quote) 1"

subsection \<open>Replacing, stripping, title case\<close>

text \<open>
  \<^verbatim>\<open>s.replace(old, new)\<close>: every occurrence of \<open>old\<close>, from left to right without
  overlap, becomes \<open>new\<close>. For an empty \<open>old\<close> Python puts \<open>new\<close> before every
  character and at the end.
\<close>

function str_replace :: "string \<Rightarrow> string \<Rightarrow> string \<Rightarrow> string" where
  "str_replace [] old new = (if old = [] then new else [])"
| "str_replace (c # cs) old new =
     (if old = [] then new @ c # str_replace cs old new
      else if prefix old (c # cs) then new @ str_replace (drop (length old) (c # cs)) old new
      else c # str_replace cs old new)"
  by pat_completeness auto
termination
  by (relation "measure (\<lambda>(s, old, new). length s)") auto

text \<open>
  The white space of \<^verbatim>\<open>str.strip\<close> and \<^verbatim>\<open>str.lstrip\<close> (the characters for which
  \<^verbatim>\<open>str.isspace\<close> holds) below code point 256: tab, line feed, vertical tab, form feed,
  carriage return, the four separators 0x1C to 0x1F, space, next line and no-break space.
\<close>

definition is_space :: "char \<Rightarrow> bool" where
  "is_space c \<longleftrightarrow> c \<in> set [CHR 0x09, CHR 0x0A, CHR 0x0B, CHR 0x0C, CHR 0x0D,
     CHR 0x1C, CHR 0x1D, CHR 0x1E, CHR 0x1F, CHR 0x20, CHR 0x85, CHR 0xA0]"

definition lstrip :: "string \<Rightarrow> string" where
  "lstrip s = dropWhile is_space s"

definition rstrip :: "string \<Rightarrow> string" where
  "rstrip s = rev (dropWhile is_space (rev s))"

definition strip :: "string \<Rightarrow> string" where
  "strip s = rstrip (lstrip s)"

text \<open>
  The letters and their case mapping. \<open>lowercase\<close> and \<open>uppercase\<close> are the letters
  of ASCII, \<open>latin_lowercase\<close> and \<open>latin_uppercase\<close> the letters from code point 0xC0
  to 0xFE that have a capital, or a small letter, below code point 256.
\<close>

definition lowercase :: string where
  "lowercase = ''abcdefghijklmnopqrstuvwxyz''"

definition uppercase :: string where
  "uppercase = ''ABCDEFGHIJKLMNOPQRSTUVWXYZ''"

definition latin_lowercase :: string where
  "latin_lowercase =
     [CHR 0xE0, CHR 0xE1, CHR 0xE2, CHR 0xE3, CHR 0xE4, CHR 0xE5, CHR 0xE6, CHR 0xE7,
      CHR 0xE8, CHR 0xE9, CHR 0xEA, CHR 0xEB, CHR 0xEC, CHR 0xED, CHR 0xEE, CHR 0xEF,
      CHR 0xF0, CHR 0xF1, CHR 0xF2, CHR 0xF3, CHR 0xF4, CHR 0xF5, CHR 0xF6, CHR 0xF8,
      CHR 0xF9, CHR 0xFA, CHR 0xFB, CHR 0xFC, CHR 0xFD, CHR 0xFE]"

definition latin_uppercase :: string where
  "latin_uppercase =
     [CHR 0xC0, CHR 0xC1, CHR 0xC2, CHR 0xC3, CHR 0xC4, CHR 0xC5, CHR 0xC6, CHR 0xC7,
      CHR 0xC8, CHR 0xC9, CHR 0xCA, CHR 0xCB, CHR 0xCC, CHR 0xCD, CHR 0xCE, CHR 0xCF,
      CHR 0xD0, CHR 0xD1, CHR 0xD2, CHR 0xD3, CHR 0xD4, CHR 0xD5, CHR 0xD6, CHR 0xD8,
      CHR 0xD9, CHR 0xDA, CHR 0xDB, CHR 0xDC, CHR 0xDD, CHR 0xDE]"

definition to_upper :: "char \<Rightarrow> char" where
  "to_upper c =
     (case map_of (zip (lowercase @ latin_lowercase) (uppercase @ latin_uppercase)) c of
        Some u \<Rightarrow> u
      | None \<Rightarrow> c)"

definition to_lower :: "char \<Rightarrow> char" where
  "to_lower c =
     (case map_of (zip (uppercase @ latin_uppercase) (lowercase @ latin_lowercase)) c of
        Some l \<Rightarrow> l
      | None \<Rightarrow> c)"

text \<open>
  \<^verbatim>\<open>str.title\<close>: a character after a cased character is put in lower case, any other
  character in title case. Besides the letters above, the cased characters below code
  point 256 are the two ordinal indicators, the micro sign, the sharp s (whose title case
  is \<^verbatim>\<open>Ss\<close>) and the y with diaeresis. The capitals of the micro sign and of the y with
  diaeresis lie beyond code point 255: for these two characters, at the start of a word,
  the model keeps the character where Python gives the capital.
\<close>

definition is_cased :: "char \<Rightarrow> bool" where
  "is_cased c \<longleftrightarrow>
     c \<in> set lowercase \<or> c \<in> set uppercase \<or> c \<in> set latin_lowercase
     \<or> c \<in> set latin_uppercase \<or> c \<in> set [CHR 0xAA, CHR 0xB5, CHR 0xBA, CHR 0xDF, CHR 0xFF]"

definition title_case :: "char \<Rightarrow> string" where
  "title_case c = (if c = CHR 0xDF then ''Ss'' else [to_upper c])"

fun title_from :: "bool \<Rightarrow> string \<Rightarrow> string" where
  "title_from previous_is_cased [] = []"
| "title_from previous_is_cased (c # cs) =
     (if previous_is_cased then [to_lower c] else title_case c)
       @ title_from (is_cased c) cs"

definition title :: "string \<Rightarrow> string" where
  "title s = title_from False s"

subsection \<open>clean_docstring\<close>

definition autodoc_marker :: string where
  "autodoc_marker = ''<< autodoc-me >>''"

definition backquote :: char where
  "backquote = CHR 0x60"

text \<open>The character class \<^verbatim>\<open>[A-Za-z_]\<close>.\<close>

definition is_identifier_char :: "char \<Rightarrow> bool" where
  "is_identifier_char c \<longleftrightarrow> c \<in> set uppercase \<or> c \<in> set lowercase \<or> c = CHR ''_''"

text \<open>
  The call of \<^verbatim>\<open>re.sub\<close> in \<open>clean_docstring\<close>: the pattern is a backquote, one or
  more characters of \<^verbatim>\<open>[A-Za-z_]\<close> (as many as there are: the pattern ends with a
  backquote, which is not in the class) and a backquote. The text is scanned from left to
  right; where the pattern matches, the backquotes are doubled and the scan goes on after
  the match; elsewhere the character is copied.
\<close>

function sub_identifiers :: "string \<Rightarrow> string" where
  "sub_identifiers [] = []"
| "sub_identifiers (c # cs) =
     (if c = backquote \<and> takeWhile is_identifier_char cs \<noteq> []
          \<and> prefix [backquote] (dropWhile is_identifier_char cs)
      then [backquote, backquote] @ takeWhile is_identifier_char cs @ [backquote, backquote]
             @ sub_identifiers (tl (dropWhile is_identifier_char cs))
      else c # sub_identifiers cs)"
  by pat_completeness auto
termination
  by (relation "measure length")
    (auto simp: less_Suc_eq_le intro!: le_trans [OF diff_le_self length_dropWhile_le])

definition clean_docstring :: "string \<Rightarrow> string" where
  "clean_docstring docstring =
     sub_identifiers (strip (str_replace docstring (autodoc_marker @ [CHR 0x0A]) []))"

text \<open>
  \<^verbatim>\<open>re.search\<close> with the pattern of \<open>clean_docstring\<close>: some part of the text is
  a backquote, one or more characters of \<^verbatim>\<open>[A-Za-z_]\<close> and a backquote.
\<close>

fun has_backquoted_identifier :: "string \<Rightarrow> bool" where
  "has_backquoted_identifier [] = False"
| "has_backquoted_identifier (c # cs) =
     ((c = backquote \<and> takeWhile is_identifier_char cs \<noteq> []
         \<and> prefix [backquote] (dropWhile is_identifier_char cs))
      \<or> has_backquoted_identifier cs)"

subsection \<open>The templates\<close>

text \<open>
  The two templates after \<^verbatim>\<open>dedent\<close>, with \<^verbatim>\<open>str.format\<close> applied: the named fields
  are the arguments. Each template starts with a line feed and ends with one.
\<close>

definition rule_line :: "char \<Rightarrow> string" where
  "rule_line c = replicate 79 c"

definition unlines :: "string list \<Rightarrow> string" where
  "unlines ls = concat (map (\<lambda>l. l @ [CHR 0x0A]) ls)"

definition SCREENSHOT_RST_TEMPLATE :: "string \<Rightarrow> string" where
  "SCREENSHOT_RST_TEMPLATE name = unlines
     ['''',
      ''Screenshot'',
      rule_line CHR ''-'',
      '''',
      ''.. image:: images/'' @ name]"

definition EXAMPLE_DOC_RST_TEMPLATE ::
  "string \<Rightarrow> string \<Rightarrow> string \<Rightarrow> string \<Rightarrow> string \<Rightarrow> string" where
  "EXAMPLE_DOC_RST_TEMPLATE title_text name path docstring_rst screenshot_rst = unlines
     ['''',
      ''..'',
      ''  NOTE: This RST file was generated by '' @ [backquote] @ ''make examples''
        @ [backquote] @ ''.'',
      ''  Do not edit it directly.'',
      ''  See docs/source/examples/example_doc_generator.py'',
      '''',
      title_text @ '' Example'',
      rule_line CHR ''='',
      '''',
      docstring_rst,
      '''',
      ''.. TIP:: To see this example in action, download it from'',
      '' :download:'' @ [backquote] @ name @ '' <../../../'' @ path @ ''>'' @ [backquote],
      '' and run::'',
      '''',
      ''   $ enaml-run '' @ name @ ''.enaml'',
      '''',
      screenshot_rst,
      ''Example Enaml Code'',
      rule_line CHR ''-'',
      ''.. literalinclude:: ../../../'' @ path,
      ''    :language: enaml'']"

subsection \<open>Paths (posixpath)\<close>

definition basename :: "string \<Rightarrow> string" where
  "basename p = rev (takeWhile (\<lambda>c. c \<noteq> CHR ''/'') (rev p))"

definition dirname :: "string \<Rightarrow> string" where
  "dirname p =
     (let head = rev (dropWhile (\<lambda>c. c \<noteq> CHR ''/'') (rev p))
      in if head \<noteq> [] \<and> head \<noteq> replicate (length head) CHR ''/''
         then rev (dropWhile (\<lambda>c. c = CHR ''/'') (rev head)) else head)"

definition join :: "string \<Rightarrow> string \<Rightarrow> string" where
  "join a b =
     (if prefix ''/'' b then b
      else if a = [] \<or> suffix ''/'' a then a @ b
      else a @ ''/'' @ b)"

subsection \<open>The world: module search path, file system, console\<close>

text \<open>
  The program acts on the module search path \<^verbatim>\<open>sys.path\<close>, on the file system and on
  the console. The file system maps a path to what is there: a file with its text, or a
  directory. A file holds characters: \<^verbatim>\<open>encode\<close> on writing and the decoding on
  reading are left out.
\<close>

datatype node = File string | Directory

record world =
  sys_path :: "string list"
  fs :: "string \<Rightarrow> node option"
  stdout :: "string list"

definition print :: "string \<Rightarrow> world \<Rightarrow> world" where
  "print line w = w\<lparr>stdout := stdout w @ [line]\<rparr>"

text \<open>\<^verbatim>\<open>open(path, 'rb').read()\<close>: the content of the file as it is.\<close>

definition read_file :: "(string \<Rightarrow> node option) \<Rightarrow> string \<Rightarrow> error + string" where
  "read_file files path =
     (case files path of
        None \<Rightarrow> Inl FileNotFoundError
      | Some Directory \<Rightarrow> Inl IsADirectoryError
      | Some (File text) \<Rightarrow> Inr text)"

text \<open>
  \<^verbatim>\<open>open(path).read()\<close>, the read in text mode of lines 176 and 177: every line end
  (a carriage return followed by a line feed, or a carriage return alone) comes as a line
  feed. The decoding of the bytes, which goes by the encoding of the locale, is left out:
  the files of this model hold characters.
\<close>

fun universal_newlines :: "string \<Rightarrow> string" where
  "universal_newlines [] = []"
| "universal_newlines [c] = [if c = CHR 0x0D then CHR 0x0A else c]"
| "universal_newlines (c # d # cs) =
     (if c = CHR 0x0D \<and> d = CHR 0x0A then CHR 0x0A # universal_newlines cs
      else if c = CHR 0x0D then CHR 0x0A # universal_newlines (d # cs)
      else c # universal_newlines (d # cs))"

definition read_text :: "(string \<Rightarrow> node option) \<Rightarrow> string \<Rightarrow> error + string" where
  "read_text files path =
     (case read_file files path of
        Inl e \<Rightarrow> Inl e
      | Inr data \<Rightarrow> Inr (universal_newlines data))"

text \<open>
  \<^verbatim>\<open>open(path, 'wb').write(text)\<close>: the file is created or overwritten; the directory
  it goes to must exist and be a directory (the empty directory name is the current
  directory).
\<close>

definition write_file ::
  "(string \<Rightarrow> node option) \<Rightarrow> string \<Rightarrow> string \<Rightarrow> error + (string \<Rightarrow> node option)" where
  "write_file files path text =
     (if files path = Some Directory then Inl IsADirectoryError
      else if dirname path = [] then Inr (files(path \<mapsto> File text))
      else (case files (dirname path) of
              None \<Rightarrow> Inl FileNotFoundError
            | Some (File t) \<Rightarrow> Inl NotADirectoryError
            | Some Directory \<Rightarrow> Inr (files(path \<mapsto> File text))))"

text \<open>
  \<^verbatim>\<open>shutil.rmtree(path)\<close>, called without \<^verbatim>\<open>ignore_errors\<close>: the directory goes with
  all that is below it; a path that does not exist raises FileNotFoundError.
\<close>

definition rmtree :: "(string \<Rightarrow> node option) \<Rightarrow> string \<Rightarrow> error + (string \<Rightarrow> node option)" where
  "rmtree files path =
     (case files path of
        None \<Rightarrow> Inl FileNotFoundError
      | Some (File text) \<Rightarrow> Inl NotADirectoryError
      | Some Directory \<Rightarrow>
          Inr (\<lambda>p. if p = path \<or> prefix (path @ ''/'') p then None else files p))"

subsection \<open>The capture capability\<close>

text \<open>
  Importing the example as a module and taking the snapshot of its window
  (\<^verbatim>\<open>__import__(script_name)\<close> and \<open>save_snapshot_of_module\<close>, inside
  \<^verbatim>\<open>enaml.imports()\<close>) is the work of Enaml and Qt. It is a parameter here: given the
  module name, the image path and the world, it ends in one of three ways and leaves a
  world behind (an image written, a cache directory created, anything else).
  \<open>Raised\<close> is an exception of class \<^verbatim>\<open>Exception\<close> with its message, \<open>Interrupted\<close>
  one that is not (KeyboardInterrupt, SystemExit).
\<close>

datatype outcome = Completed | Raised string | Interrupted string

type_synonym capability = "string \<Rightarrow> string \<Rightarrow> world \<Rightarrow> outcome \<times> world"

subsection \<open>generate_example_doc\<close>

text \<open>
  Lines 154 to 174: the search path is extended, the capability runs under
  \<^verbatim>\<open>try\<close>, \<^verbatim>\<open>except Exception\<close> prints two lines, \<^verbatim>\<open>finally\<close> removes the cache
  directory, and after the \<^verbatim>\<open>with\<close> block the search path is put back. An exception
  raised by \<^verbatim>\<open>rmtree\<close> in the \<^verbatim>\<open>finally\<close> clause leaves the function, and so does an
  exception of the capability that \<^verbatim>\<open>except Exception\<close> does not catch, once the
  \<^verbatim>\<open>finally\<close> clause has run. The result is the error that leaves the function, or
  \<open>snapshot_success\<close>.
\<close>

definition capture_step ::
  "capability \<Rightarrow> string \<Rightarrow> string \<Rightarrow> string \<Rightarrow> world \<Rightarrow> (error + bool) \<times> world" where
  "capture_step cap script_path script_name image_path w =
     (let old_python_path = sys_path w;
          w1 = w\<lparr>sys_path := sys_path w @ [dirname script_path]\<rparr>;
          (out, w2) = cap script_name image_path w1;
          w3 = (case out of
                  Raised err \<Rightarrow>
                    print (''    '' @ err) (print (''Could not snapshot: '' @ script_name) w2)
                | _ \<Rightarrow> w2);
          enaml_cache_dir = join (dirname script_path) ''__enamlcache__''
      in case rmtree (fs w3) enaml_cache_dir of
           Inl e \<Rightarrow> (Inl e, w3)
         | Inr files \<Rightarrow>
             (case out of
                Interrupted msg \<Rightarrow> (Inl (Uncaught msg), w3\<lparr>fs := files\<rparr>)
              | _ \<Rightarrow> (Inr (out = Completed), w3\<lparr>fs := files, sys_path := old_python_path\<rparr>)))"

text \<open>
  Lines 142 to 152, the names and paths derived from the path of the example.
\<close>

definition script_name_of :: "string \<Rightarrow> string" where
  "script_name_of script_path =
     (let script_name = basename script_path
      in slice_to script_name (py_find script_name ''.''))"

definition script_title_of :: "string \<Rightarrow> string" where
  "script_title_of script_name = title (str_replace script_name ''_'' '' '')"

definition script_image_name_of :: "string \<Rightarrow> string" where
  "script_image_name_of script_name = ''ex_'' @ script_name @ ''.png''"

definition image_path_of :: "string \<Rightarrow> string \<Rightarrow> string" where
  "image_path_of docs_path script_name =
     join (join docs_path ''images'') (script_image_name_of script_name)"

definition rst_path_of :: "string \<Rightarrow> string \<Rightarrow> string" where
  "rst_path_of docs_path script_name = join docs_path (''ex_'' @ script_name @ ''.rst'')"

definition relative_script_path_of :: "string \<Rightarrow> string" where
  "relative_script_path_of script_path =
     str_replace (slice_from script_path (py_find script_path ''examples'')) [CHR 0x5C] ''/''"

text \<open>
  The whole function. The result is the exception that leaves it (\<open>None\<close> when it
  returns) and the world it leaves.
\<close>

definition generate_example_doc ::
  "capability \<Rightarrow> string \<Rightarrow> string \<Rightarrow> world \<Rightarrow> error option \<times> world" where
  "generate_example_doc cap docs_path script_path w =
     (let script_name = script_name_of script_path;
          w = print (''generating doc for '' @ script_name) w;
          script_title = script_title_of script_name;
          script_image_name = script_image_name_of script_name;
          image_path = image_path_of docs_path script_name;
          rst_path = rst_path_of docs_path script_name;
          relative_script_path = relative_script_path_of script_path
      in case capture_step cap script_path script_name image_path w of
           (Inl e, w) \<Rightarrow> (Some e, w)
         | (Inr snapshot_success, w) \<Rightarrow>
             (case read_text (fs w) script_path of
                Inl e \<Rightarrow> (Some e, w)
              | Inr script_text \<Rightarrow>
                  (case extract_docstring script_text of
                     Inl e \<Rightarrow> (Some e, w)
                   | Inr raw \<Rightarrow>
                       (let docstring = clean_docstring raw;
                            screenshot_rst =
                              (if \<not> snapshot_success then []
                               else SCREENSHOT_RST_TEMPLATE script_image_name);
                            example_doc_rst =
                              EXAMPLE_DOC_RST_TEMPLATE script_title script_name
                                relative_script_path docstring screenshot_rst
                        in case write_file (fs w) rst_path (lstrip example_doc_rst) of
                             Inl e \<Rightarrow> (Some e, w)
                           | Inr files \<Rightarrow> (None, w\<lparr>fs := files\<rparr>)))))"

subsection \<open>main\<close>

text \<open>
  \<^verbatim>\<open>data.splitlines()\<close> on bytes: the lines of the data, ended by a line feed, a
  carriage return or a carriage return followed by a line feed; the line ends are not
  kept, and there is no empty last line after a final line end.
\<close>

fun splitlines_from :: "string \<Rightarrow> string \<Rightarrow> string list" where
  "splitlines_from cur [] = (if cur = [] then [] else [cur])"
| "splitlines_from cur (c # cs) =
     (if c = CHR 0x0A then cur # splitlines_from [] cs
      else if c = CHR 0x0D then
        (case cs of
           [] \<Rightarrow> [cur]
         | d # ds \<Rightarrow> if d = CHR 0x0A then cur # splitlines_from [] ds
                     else cur # splitlines_from [] cs)
      else splitlines_from (cur @ [c]) cs)"

definition splitlines :: "string \<Rightarrow> string list" where
  "splitlines data = splitlines_from [] data"

text \<open>
  \<^verbatim>\<open>os.walk(dirpath)\<close> over a directory: the names of its files and its subdirectories
  with their content. The walk is top-down and gives, for every directory, its path, the
  names of its subdirectories and the names of its files.
\<close>

datatype tree = Tree (tree_files: "string list") (tree_dirs: "(string \<times> tree) list")

type_synonym walk_entry = "string \<times> string list \<times> string list"

fun os_walk :: "string \<Rightarrow> tree \<Rightarrow> walk_entry list" where
  "os_walk dirpath (Tree filenames dirs) =
     (dirpath, map fst dirs, filenames)
       # concat (map (\<lambda>(name, t). os_walk (join dirpath name) t) dirs)"

text \<open>
  Lines 212 to 216: the files of one directory that end in \<^verbatim>\<open>.enaml\<close>, with their
  paths, and of these the ones that end in an entry of the white list when there is one
  (\<^verbatim>\<open>None\<close> and the empty list both count as no white list).
\<close>

definition selected_files :: "string list \<Rightarrow> walk_entry \<Rightarrow> string list" where
  "selected_files white_list entry =
     (case entry of (dirpath, dirnames, filenames) \<Rightarrow>
        (let files = map (join dirpath) (filter (\<lambda>f. suffix ''.enaml'' f) filenames)
         in if white_list \<noteq> []
            then filter (\<lambda>f. list_ex (\<lambda>w. suffix w f) white_list) files
            else files))"

text \<open>Line 220: the marker is one of the lines of the data.\<close>

definition has_marker_line :: "string \<Rightarrow> bool" where
  "has_marker_line data \<longleftrightarrow> autodoc_marker \<in> set (splitlines data)"

text \<open>Lines 217 to 221, the loop over the files of one directory.\<close>

fun generate_files ::
  "capability \<Rightarrow> string \<Rightarrow> string list \<Rightarrow> world \<Rightarrow> error option \<times> world" where
  "generate_files cap docs_path [] w = (None, w)"
| "generate_files cap docs_path (fname # files) w =
     (case read_file (fs w) fname of
        Inl e \<Rightarrow> (Some e, w)
      | Inr data \<Rightarrow>
          if has_marker_line data
          then (case generate_example_doc cap docs_path fname w of
                  (Some e, w') \<Rightarrow> (Some e, w')
                | (None, w') \<Rightarrow> generate_files cap docs_path files w')
          else generate_files cap docs_path files w)"

text \<open>Line 211, the loop over the directories of the walk.\<close>

fun generate_walk ::
  "capability \<Rightarrow> string \<Rightarrow> string list \<Rightarrow> walk_entry list \<Rightarrow> world
     \<Rightarrow> error option \<times> world" where
  "generate_walk cap docs_path white_list [] w = (None, w)"
| "generate_walk cap docs_path white_list (entry # entries) w =
     (case generate_files cap docs_path (selected_files white_list entry) w of
        (Some e, w') \<Rightarrow> (Some e, w')
      | (None, w') \<Rightarrow> generate_walk cap docs_path white_list entries w')"

text \<open>
  \<open>main\<close>: \<open>docs_path\<close> is the directory of the script, \<open>base_path\<close> the directory
  of the examples and \<open>examples\<close> what the walk finds there.
\<close>

definition main ::
  "capability \<Rightarrow> string \<Rightarrow> string \<Rightarrow> tree \<Rightarrow> string list \<Rightarrow> world
     \<Rightarrow> error option \<times> world" where
  "main cap docs_path base_path examples white_list w =
     generate_walk cap docs_path white_list (os_walk base_path examples) w"

subsection \<open>Notions of the specification\<close>

text \<open>All the files below a directory, with their paths.\<close>

fun tree_paths :: "string \<Rightarrow> tree \<Rightarrow> string list" where
  "tree_paths dirpath (Tree filenames dirs) =
     map (join dirpath) filenames
       @ concat (map (\<lambda>(name, t). tree_paths (join dirpath name) t) dirs)"

text \<open>
  A whole line of a text: the line stands in the text between the start of the text or a
  line end before it, and the end of the text or a line end after it.
\<close>

definition is_line_end :: "char \<Rightarrow> bool" where
  "is_line_end c \<longleftrightarrow> c = CHR 0x0A \<or> c = CHR 0x0D"

definition is_line_of :: "string \<Rightarrow> string \<Rightarrow> bool" where
  "is_line_of line text \<longleftrightarrow>
     (\<exists>before after. text = before @ line @ after
        \<and> (before = [] \<or> is_line_end (last before))
        \<and> (after = [] \<or> is_line_end (hd after)))"

text \<open>
  The two ways of being a whole line: as the first line of the text, and as a line after
  a line end.
\<close>

definition is_first_line_of :: "string \<Rightarrow> string \<Rightarrow> bool" where
  "is_first_line_of line text \<longleftrightarrow>
     (\<exists>after. text = line @ after \<and> (after = [] \<or> is_line_end (hd after)))"

definition is_later_line_of :: "string \<Rightarrow> string \<Rightarrow> bool" where
  "is_later_line_of line text \<longleftrightarrow>
     (\<exists>before after. text = before @ line @ after
        \<and> before \<noteq> [] \<and> is_line_end (last before)
        \<and> (after = [] \<or> is_line_end (hd after)))"

text \<open>The text of the file at a path (empty where there is no file).\<close>

definition text_at :: "(string \<Rightarrow> node option) \<Rightarrow> string \<Rightarrow> string" where
  "text_at files path = (case files path of Some (File text) \<Rightarrow> text | _ \<Rightarrow> [])"

definition is_file :: "(string \<Rightarrow> node option) \<Rightarrow> string \<Rightarrow> bool" where
  "is_file files path \<longleftrightarrow> (case files path of Some (File text) \<Rightarrow> True | _ \<Rightarrow> False)"

text \<open>
  The discovery of the specification: of the files below the root, in the order of the
  walk, the ones whose path ends in \<^verbatim>\<open>.enaml\<close>, whose text has the marker as a whole
  line and, when there is a white list, whose path ends in one of its entries.
\<close>

definition discovered ::
  "string list \<Rightarrow> string \<Rightarrow> tree \<Rightarrow> (string \<Rightarrow> node option) \<Rightarrow> string list" where
  "discovered white_list base_path examples files =
     filter
       (\<lambda>p. suffix ''.enaml'' p
          \<and> is_line_of autodoc_marker (text_at files p)
          \<and> (white_list = [] \<or> (\<exists>w\<in>set white_list. suffix w p)))
       (tree_paths base_path examples)"

text \<open>
  The run of the specification over the discovered files: a document is generated for
  each of them in sequence, and the first error ends the run.
\<close>

fun generate_each ::
  "capability \<Rightarrow> string \<Rightarrow> string list \<Rightarrow> world \<Rightarrow> error option \<times> world" where
  "generate_each cap docs_path [] w = (None, w)"
| "generate_each cap docs_path (p # ps) w =
     (case generate_example_doc cap docs_path p w of
        (Some e, w') \<Rightarrow> (Some e, w')
      | (None, w') \<Rightarrow> generate_each cap docs_path ps w')"

text \<open>
  The rewriting of the specification: in the text, from left to right, every backquoted
  identifier (a backquote, one or more characters of \<^verbatim>\<open>[A-Za-z_]\<close>, a backquote) has
  its backquotes doubled, and all the rest of the text stays as it is. A text is either
  without a backquoted identifier, and stays; or it has a first one, after a part
  \<open>before\<close> in which none starts, and the text after it is rewritten in the same way.
\<close>

inductive backquotes_doubled :: "string \<Rightarrow> string \<Rightarrow> bool" where
  plain: "\<not> has_backquoted_identifier s \<Longrightarrow> backquotes_doubled s s"
| token:
    "\<not> has_backquoted_identifier (before @ [backquote]) \<Longrightarrow>
     ident \<noteq> [] \<Longrightarrow> list_all is_identifier_char ident \<Longrightarrow>
     backquotes_doubled rest rest' \<Longrightarrow>
     backquotes_doubled (before @ [backquote] @ ident @ [backquote] @ rest)
       (before @ [backquote, backquote] @ ident @ [backquote, backquote] @ rest')"

subsection \<open>A run on three examples\<close>

text \<open>
  The directory of the examples holds \<^verbatim>\<open>hello.enaml\<close>, which has the marker line but no
  docstring, a text file with the marker, and in a subdirectory \<^verbatim>\<open>button.enaml\<close>,
  where the marker is only a part of a line, and \<^verbatim>\<open>slider.enaml\<close>, which has a
  docstring with the marker line.
\<close>

definition docs_dir :: string where
  "docs_dir = ''/repo/docs/source/examples''"

definition examples_dir :: string where
  "examples_dir = ''/repo/examples''"

definition examples_tree :: tree where
  "examples_tree =
     Tree [''hello.enaml'', ''README.txt'']
       [(''widgets'', Tree [''button.enaml'', ''slider.enaml''] [])]"

definition examples_files :: "string \<Rightarrow> node option" where
  "examples_files =
     [''/repo/docs/source/examples'' \<mapsto> Directory,
      ''/repo/examples'' \<mapsto> Directory,
      ''/repo/examples/widgets'' \<mapsto> Directory,
      ''/repo/examples/hello.enaml'' \<mapsto>
        File (unlines [''# Hello'', ''<< autodoc-me >>'', ''enamldef Main(Window): pass'']),
      ''/repo/examples/README.txt'' \<mapsto> File (unlines [''<< autodoc-me >>'']),
      ''/repo/examples/widgets/button.enaml'' \<mapsto>
        File (unlines [''# << autodoc-me >> later'', ''enamldef Main(Window): pass'']),
      ''/repo/examples/widgets/slider.enaml'' \<mapsto>
        File (triple_quote @ '' A slider.'' @ [CHR 0x0D, CHR 0x0A] @ ''<< autodoc-me >>''
          @ [CHR 0x0D, CHR 0x0A] @ triple_quote @ [CHR 0x0D, CHR 0x0A]
          @ ''enamldef Main(Window): pass'')]"

definition examples_world :: world where
  "examples_world =
     \<lparr>sys_path = [''/usr/lib/python3''], fs = examples_files, stdout = []\<rparr>"

text \<open>
  Two capabilities. The first one imports the module and saves the snapshot: the import
  leaves the cache directory next to the example (in the directory that was added last to
  the search path) and the snapshot is written. With the second one the example does not
  compile: the import raises before a cache is written.
\<close>

definition snapshot_saved :: capability where
  "snapshot_saved script_name image_path w =
     (Completed,
      w\<lparr>fs := (fs w)(join (last (sys_path w)) ''__enamlcache__'' \<mapsto> Directory,
                      image_path \<mapsto> File ''PNG'')\<rparr>)"

definition import_fails :: capability where
  "import_fails script_name image_path w =
     (Raised (''invalid syntax ('' @ script_name @ ''.enaml, line 1)''), w)"

section \<open>Properties of the string methods\<close>

lemma split_from_find:
  "sep \<noteq> [] \<Longrightarrow> split_from cur s sep =
     (case str_find s sep of
        None \<Rightarrow> [cur @ s]
      | Some i \<Rightarrow> (cur @ take i s) # split_from [] (drop (i + length sep) s) sep)"
proof (induction s arbitrary: cur)
  case Nil
  then show ?case by simp
next
  case (Cons c cs)
  show ?case
  proof (cases "prefix sep (c # cs)")
    case True
    with Cons.prems show ?thesis by simp
  next
    case False
    with Cons.prems Cons.IH [of "cur @ [c]"] show ?thesis
      by (simp split: option.splits)
  qed
qed

lemma count_sub_find:
  "sep \<noteq> [] \<Longrightarrow> count_sub s sep =
     (case str_find s sep of
        None \<Rightarrow> 0
      | Some i \<Rightarrow> Suc (count_sub (drop (i + length sep) s) sep))"
proof (induction s)
  case Nil
  then show ?case by simp
next
  case (Cons c cs)
  then show ?case
    by (cases "prefix sep (c # cs)") (simp_all split: option.splits)
qed

lemma triple_quote_length: "triple_quote \<noteq> []" "length triple_quote = 3"
  by (simp_all add: triple_quote_def)

lemma count_sub_0_find:
  "sep \<noteq> [] \<Longrightarrow> count_sub s sep = 0 \<longleftrightarrow> str_find s sep = None"
  by (simp add: count_sub_find [of sep s] split: option.splits)

lemma extract_docstring_find:
  "extract_docstring s =
     (case str_find s triple_quote of
        None \<Rightarrow> Inl IndexError
      | Some i \<Rightarrow>
          (case str_find (drop (i + length triple_quote) s) triple_quote of
             None \<Rightarrow> Inr (drop (i + length triple_quote) s)
           | Some j \<Rightarrow> Inr (take j (drop (i + length triple_quote) s))))"
  by (simp add: extract_docstring_def str_split_def getitem_def
      split_from_find [of triple_quote] triple_quote_length(1) split: option.splits)

subsection \<open>extract_docstring and the number of delimiters\<close>

text \<open>
  C1, as the code has it. A text without any triple quote makes \<open>extract_docstring\<close>
  fail: the split has one piece and index 1 is out of range (IndexError is the error that
  the specification calls MalformedSourceError). A text with exactly one triple quote is
  not rejected: the split has two pieces and the second one, the text after the triple
  quote, is returned.
\<close>

theorem extract_docstring_fewer_than_two:
  "(count_sub s triple_quote = 0 \<longrightarrow> extract_docstring s = Inl IndexError)
   \<and> (count_sub s triple_quote = 1 \<longrightarrow>
        (\<exists>i. str_find s triple_quote = Some i
           \<and> extract_docstring s = Inr (drop (i + length triple_quote) s)))"
proof (intro conjI impI)
  assume "count_sub s triple_quote = 0"
  then show "extract_docstring s = Inl IndexError"
    by (simp add: count_sub_0_find triple_quote_length(1) extract_docstring_find)
next
  assume one: "count_sub s triple_quote = 1"
  then obtain i where i: "str_find s triple_quote = Some i"
    by (cases "str_find s triple_quote")
      (simp_all add: count_sub_find [of triple_quote s] triple_quote_length(1))
  with one have "count_sub (drop (i + length triple_quote) s) triple_quote = 0"
    by (simp add: count_sub_find [of triple_quote s] triple_quote_length(1))
  then have "str_find (drop (i + length triple_quote) s) triple_quote = None"
    by (simp add: count_sub_0_find triple_quote_length(1))
  with i show "\<exists>i. str_find s triple_quote = Some i
      \<and> extract_docstring s = Inr (drop (i + length triple_quote) s)"
    by (simp add: extract_docstring_find)
qed

theorem extract_docstring_fewer_than_two_witness:
  "count_sub ''no docstring'' triple_quote = 0
   \<and> extract_docstring ''no docstring'' = Inl IndexError
   \<and> count_sub (''ab'' @ triple_quote @ ''cd'') triple_quote = 1
   \<and> extract_docstring (''ab'' @ triple_quote @ ''cd'') = Inr ''cd''"
proof -
  have zero: "count_sub ''no docstring'' triple_quote = 0"
    by (simp add: triple_quote_def)
  have one: "count_sub (''ab'' @ triple_quote @ ''cd'') triple_quote = 1"
    by (simp add: triple_quote_def)
  from extract_docstring_fewer_than_two [of "''no docstring''"] zero
  have a: "extract_docstring ''no docstring'' = Inl IndexError" by blast
  from extract_docstring_fewer_than_two [of "''ab'' @ triple_quote @ ''cd''"] one
  have "\<exists>i. str_find (''ab'' @ triple_quote @ ''cd'') triple_quote = Some i
      \<and> extract_docstring (''ab'' @ triple_quote @ ''cd'')
          = Inr (drop (i + length triple_quote) (''ab'' @ triple_quote @ ''cd''))" by blast
  then have b: "extract_docstring (''ab'' @ triple_quote @ ''cd'') = Inr ''cd''"
    by (simp add: triple_quote_def)
  from zero one a b show ?thesis by blast
qed

text \<open>
  C1 as stated fails: this text has one triple quote, fewer than two, and
  \<open>extract_docstring\<close> returns a string.
\<close>

theorem extract_docstring_one_delimiter_counterexample:
  "count_sub (''ab'' @ triple_quote @ ''cd'') triple_quote < 2
   \<and> extract_docstring (''ab'' @ triple_quote @ ''cd'') = Inr ''cd''"
  by (simp add: triple_quote_def extract_docstring_def str_split_def getitem_def)

text \<open>
  C7. For a text with at least two triple quotes, \<open>extract_docstring\<close> returns the
  text between the first occurrence of the triple quote (at index \<open>i\<close>) and the next
  one after it (at index \<open>j\<close> of the rest), unchanged.
\<close>

theorem extract_docstring_between:
  assumes "2 \<le> count_sub s triple_quote"
  shows "\<exists>i j. str_find s triple_quote = Some i
           \<and> str_find (drop (i + length triple_quote) s) triple_quote = Some j
           \<and> extract_docstring s = Inr (take j (drop (i + length triple_quote) s))"
proof -
  from assms obtain i where i: "str_find s triple_quote = Some i"
    by (cases "str_find s triple_quote")
      (simp_all add: count_sub_find [of triple_quote s] triple_quote_length(1))
  let ?r = "drop (i + length triple_quote) s"
  from assms i have "1 \<le> count_sub ?r triple_quote"
    by (simp add: count_sub_find [of triple_quote s] triple_quote_length(1))
  then obtain j where j: "str_find ?r triple_quote = Some j"
    by (cases "str_find ?r triple_quote")
      (simp_all add: count_sub_find [of triple_quote ?r] triple_quote_length(1))
  with i show ?thesis by (simp add: extract_docstring_find)
qed

theorem extract_docstring_between_witness:
  "2 \<le> count_sub (''x = '' @ triple_quote @ ''Doc'' @ triple_quote @ ''; y'') triple_quote
   \<and> extract_docstring (''x = '' @ triple_quote @ ''Doc'' @ triple_quote @ ''; y'') = Inr ''Doc''"
proof -
  have two: "2 \<le> count_sub (''x = '' @ triple_quote @ ''Doc'' @ triple_quote @ ''; y'') triple_quote"
    by (simp add: triple_quote_def)
  from extract_docstring_between [OF two] two show ?thesis
    by (simp add: triple_quote_def)
qed

section \<open>Properties of clean_docstring\<close>

lemma backquote_not_identifier [simp]: "\<not> is_identifier_char backquote"
  by (simp add: is_identifier_char_def backquote_def uppercase_def lowercase_def)

lemma takeWhile_identifier:
  "\<forall>c\<in>set ident. is_identifier_char c \<Longrightarrow>
     takeWhile is_identifier_char (ident @ backquote # rest) = ident"
  by (induction ident) simp_all

lemma dropWhile_identifier:
  "\<forall>c\<in>set ident. is_identifier_char c \<Longrightarrow>
     dropWhile is_identifier_char (ident @ backquote # rest) = backquote # rest"
  by (induction ident) simp_all

lemma sub_identifiers_copy:
  "backquote \<notin> set pre \<Longrightarrow> sub_identifiers (pre @ s) = pre @ sub_identifiers s"
  by (induction pre) auto

lemma sub_identifiers_match:
  assumes "ident \<noteq> []" and "\<forall>c\<in>set ident. is_identifier_char c"
  shows "sub_identifiers (backquote # ident @ backquote # rest)
           = [backquote, backquote] @ ident @ [backquote, backquote] @ sub_identifiers rest"
  using assms by (simp add: takeWhile_identifier dropWhile_identifier)

lemma dropWhile_not_identifier:
  assumes "backquote \<notin> set tok" and "\<exists>c\<in>set tok. \<not> is_identifier_char c"
  shows "\<not> prefix [backquote] (dropWhile is_identifier_char (tok @ rest))"
  using assms by (induction tok) auto

lemma sub_identifiers_no_match:
  assumes "backquote \<notin> set tok" and "\<exists>c\<in>set tok. \<not> is_identifier_char c"
  shows "sub_identifiers (backquote # tok @ rest) = backquote # tok @ sub_identifiers rest"
  using assms dropWhile_not_identifier [OF assms, of rest]
  by (simp add: sub_identifiers_copy)

lemma dropWhile_no_backquote:
  "backquote \<notin> set s \<Longrightarrow> \<not> prefix [backquote] (dropWhile P s)"
  by (induction s) auto

lemma sub_identifiers_last_backquote:
  assumes "backquote \<notin> set post"
  shows "sub_identifiers (backquote # post) = backquote # post"
  using assms dropWhile_no_backquote [OF assms, of is_identifier_char]
    sub_identifiers_copy [OF assms, of "[]"]
  by simp

lemma str_find_Some:
  "str_find s sub = Some i \<Longrightarrow> s = take i s @ sub @ drop (i + length sub) s"
proof (induction s arbitrary: i)
  case Nil
  then show ?case by (simp split: if_splits)
next
  case (Cons c cs)
  show ?case
  proof (cases "prefix sub (c # cs)")
    case True
    with Cons.prems have "i = 0" by simp
    with True show ?thesis by (auto simp: prefix_def)
  next
    case False
    with Cons.prems obtain j where j: "str_find cs sub = Some j" "i = Suc j" by auto
    from Cons.IH [OF j(1)] j(2) show ?thesis by simp
  qed
qed

lemma str_find_None_iff:
  "str_find s sub = None \<longleftrightarrow> \<not> (\<exists>before after. s = before @ sub @ after)"
proof
  assume "str_find s sub = None"
  then have "\<not> prefix sub (drop k s)" for k
  proof (induction s arbitrary: k)
    case Nil
    then show ?case by (simp split: if_splits)
  next
    case (Cons c cs)
    then show ?case by (cases k) (auto split: if_splits)
  qed
  then show "\<not> (\<exists>before after. s = before @ sub @ after)"
    by (metis append_eq_conv_conj prefixI)
next
  assume "\<not> (\<exists>before after. s = before @ sub @ after)"
  then show "str_find s sub = None"
    using str_find_Some [of s sub] by (cases "str_find s sub") auto
qed

lemma str_find_None_part:
  "str_find (before @ s @ after) sub = None \<Longrightarrow> str_find s sub = None"
  unfolding str_find_None_iff by (metis append.assoc)

lemma str_replace_absent:
  "old \<noteq> [] \<Longrightarrow> str_find s old = None \<Longrightarrow> str_replace s old new = s"
  by (induction s) (auto split: if_splits)

lemma has_backquoted_identifier_iff:
  "has_backquoted_identifier s \<longleftrightarrow>
     (\<exists>before ident after. s = before @ [backquote] @ ident @ [backquote] @ after
        \<and> ident \<noteq> [] \<and> (\<forall>c\<in>set ident. is_identifier_char c))"
  (is "_ \<longleftrightarrow> ?R s")
proof
  show "has_backquoted_identifier s \<Longrightarrow> ?R s"
  proof (induction s)
    case Nil
    then show ?case by simp
  next
    case (Cons c cs)
    show ?case
    proof (cases "c = backquote \<and> takeWhile is_identifier_char cs \<noteq> []
        \<and> prefix [backquote] (dropWhile is_identifier_char cs)")
      case True
      then obtain after where after: "dropWhile is_identifier_char cs = backquote # after"
        by (auto simp: prefix_def)
      have "cs = takeWhile is_identifier_char cs @ dropWhile is_identifier_char cs" by simp
      with after True
      have "c # cs = [] @ [backquote] @ takeWhile is_identifier_char cs @ [backquote] @ after"
        by simp
      moreover have "\<forall>x\<in>set (takeWhile is_identifier_char cs). is_identifier_char x"
        by (auto dest: set_takeWhileD)
      ultimately show ?thesis using True by blast
    next
      case False
      with Cons.prems have "has_backquoted_identifier cs" by auto
      from Cons.IH [OF this] obtain before ident after
        where "cs = before @ [backquote] @ ident @ [backquote] @ after" "ident \<noteq> []"
          "\<forall>c\<in>set ident. is_identifier_char c" by blast
      then have "c # cs = (c # before) @ [backquote] @ ident @ [backquote] @ after" by simp
      with \<open>ident \<noteq> []\<close> \<open>\<forall>c\<in>set ident. is_identifier_char c\<close> show ?thesis by blast
    qed
  qed
next
  assume "?R s"
  then obtain before ident after
    where s: "s = before @ [backquote] @ ident @ [backquote] @ after" and "ident \<noteq> []"
      and "\<forall>c\<in>set ident. is_identifier_char c" by blast
  from this(2,3)
  have "has_backquoted_identifier (before @ [backquote] @ ident @ [backquote] @ after)"
    by (induction before) (simp_all add: takeWhile_identifier dropWhile_identifier)
  with s show "has_backquoted_identifier s" by simp
qed

lemma has_backquoted_identifier_part:
  "has_backquoted_identifier s \<Longrightarrow> has_backquoted_identifier (before @ s @ after)"
  unfolding has_backquoted_identifier_iff
  by (metis append.assoc)

lemma sub_identifiers_absent:
  "\<not> has_backquoted_identifier s \<Longrightarrow> sub_identifiers s = s"
  by (induction s) auto

lemma strip_part: "\<exists>before after. s = before @ strip s @ after"
proof -
  have "s = takeWhile is_space s @ lstrip s" by (simp add: lstrip_def)
  moreover have "lstrip s = rstrip (lstrip s) @ rev (takeWhile is_space (rev (lstrip s)))"
    unfolding rstrip_def
    by (metis rev_append rev_rev_ident takeWhile_dropWhile_id)
  ultimately show ?thesis unfolding strip_def by metis
qed

lemma lstrip_rstrip_lstrip: "lstrip (rstrip (lstrip s)) = rstrip (lstrip s)"
proof (cases "rstrip (lstrip s)")
  case Nil
  then show ?thesis by (simp add: lstrip_def)
next
  case (Cons c cs)
  have "prefix (rstrip (lstrip s)) (lstrip s)"
    unfolding rstrip_def by (metis prefixI rev_append rev_rev_ident takeWhile_dropWhile_id)
  with Cons have "hd (lstrip s) = c" "lstrip s \<noteq> []" by (auto simp: prefix_def)
  then have "\<not> is_space c"
    unfolding lstrip_def using hd_dropWhile by metis
  with Cons show ?thesis by (simp add: lstrip_def)
qed

lemma strip_strip: "strip (strip s) = strip s"
  by (simp add: strip_def lstrip_rstrip_lstrip) (simp add: rstrip_def)

lemma clean_docstring_plain:
  assumes "str_find x (autodoc_marker @ [CHR 0x0A]) = None"
    and "\<not> has_backquoted_identifier x"
  shows "clean_docstring x = strip x"
proof -
  obtain before after where x: "x = before @ strip x @ after" using strip_part by blast
  with assms(2) has_backquoted_identifier_part [of "strip x" before after]
  have "\<not> has_backquoted_identifier (strip x)" by auto
  with assms(1) show ?thesis
    by (simp add: clean_docstring_def str_replace_absent sub_identifiers_absent)
qed

text \<open>
  C9. On a text without the marker line and without a backquoted identifier,
  \<open>clean_docstring\<close> only strips the white space, so that applying it a second time
  changes nothing.
\<close>

theorem clean_docstring_idempotent:
  assumes "str_find x (autodoc_marker @ [CHR 0x0A]) = None"
    and "\<not> has_backquoted_identifier x"
  shows "clean_docstring (clean_docstring x) = clean_docstring x"
proof -
  obtain before after where x: "x = before @ strip x @ after" using strip_part by blast
  from assms(1) x have "str_find (strip x) (autodoc_marker @ [CHR 0x0A]) = None"
    using str_find_None_part by metis
  moreover from assms(2) x have "\<not> has_backquoted_identifier (strip x)"
    using has_backquoted_identifier_part by metis
  ultimately have "clean_docstring (strip x) = strip (strip x)"
    by (rule clean_docstring_plain)
  with assms show ?thesis by (simp add: clean_docstring_plain strip_strip)
qed

theorem clean_docstring_idempotent_witness:
  "str_find ''  Shows a Window. '' (autodoc_marker @ [CHR 0x0A]) = None
   \<and> \<not> has_backquoted_identifier ''  Shows a Window. ''
   \<and> clean_docstring ''  Shows a Window. '' = ''Shows a Window.''
   \<and> clean_docstring (clean_docstring ''  Shows a Window. '') = clean_docstring ''  Shows a Window. ''"
proof -
  have a: "str_find ''  Shows a Window. '' (autodoc_marker @ [CHR 0x0A]) = None"
    by (simp add: autodoc_marker_def)
  have b: "\<not> has_backquoted_identifier ''  Shows a Window. ''"
    by (simp add: backquote_def)
  have c: "clean_docstring ''  Shows a Window. '' = ''Shows a Window.''"
    by (simp add: clean_docstring_def autodoc_marker_def strip_def lstrip_def rstrip_def
        is_space_def backquote_def)
  from clean_docstring_idempotent [OF a b] a b c show ?thesis by blast
qed

subsection \<open>The substitution doubles the backquotes of every backquoted identifier\<close>

lemma takeWhile_up_to:
  "\<not> P b \<Longrightarrow> takeWhile P (p @ b # rest) = takeWhile P (p @ [b])"
  by (induction p) simp_all

lemma dropWhile_up_to:
  "\<not> P b \<Longrightarrow> dropWhile P (p @ b # rest) = dropWhile P (p @ [b]) @ rest"
  by (induction p) simp_all

lemma dropWhile_up_to_not_Nil: "\<not> P b \<Longrightarrow> dropWhile P (p @ [b]) \<noteq> []"
  by (induction p) simp_all

lemma prefix_single_append: "xs \<noteq> [] \<Longrightarrow> prefix [a] (xs @ ys) \<longleftrightarrow> prefix [a] xs"
  by (cases xs) simp_all

text \<open>
  Whether the pattern matches at a backquote is decided by the text up to the next
  backquote.
\<close>

lemma match_up_to_backquote:
  "takeWhile is_identifier_char (p @ backquote # rest) \<noteq> []
     \<and> prefix [backquote] (dropWhile is_identifier_char (p @ backquote # rest))
   \<longleftrightarrow> takeWhile is_identifier_char (p @ [backquote]) \<noteq> []
     \<and> prefix [backquote] (dropWhile is_identifier_char (p @ [backquote]))"
  by (simp add: takeWhile_up_to [of is_identifier_char backquote p rest]
      dropWhile_up_to [of is_identifier_char backquote p rest]
      prefix_single_append dropWhile_up_to_not_Nil)

lemma sub_identifiers_before_first:
  "\<not> has_backquoted_identifier (before @ [backquote]) \<Longrightarrow>
     sub_identifiers (before @ backquote # rest) = before @ sub_identifiers (backquote # rest)"
proof (induction before)
  case Nil
  then show ?case by simp
next
  case (Cons c p)
  from Cons.prems have no: "\<not> (c = backquote
      \<and> takeWhile is_identifier_char (p @ [backquote]) \<noteq> []
      \<and> prefix [backquote] (dropWhile is_identifier_char (p @ [backquote])))"
    and rest: "\<not> has_backquoted_identifier (p @ [backquote])"
    by simp_all
  from no match_up_to_backquote [of p rest]
  have "sub_identifiers (c # p @ backquote # rest) = c # sub_identifiers (p @ backquote # rest)"
    by auto
  with Cons.IH [OF rest] show ?case by (simp del: sub_identifiers.simps)
qed

lemma backquotes_doubled_unique:
  "backquotes_doubled s t \<Longrightarrow> t = sub_identifiers s"
proof (induction rule: backquotes_doubled.induct)
  case (plain s)
  then show ?case by (simp add: sub_identifiers_absent)
next
  case (token before ident rest rest')
  from token.hyps(2,3)
  have "sub_identifiers (backquote # ident @ backquote # rest)
      = [backquote, backquote] @ ident @ [backquote, backquote] @ sub_identifiers rest"
    by (intro sub_identifiers_match) (simp_all add: list_all_iff)
  with sub_identifiers_before_first [OF token.hyps(1), of "ident @ backquote # rest"] token.IH
  show ?case by (simp del: sub_identifiers.simps)
qed

lemma backquotes_doubled_Cons:
  assumes "backquotes_doubled cs t"
    and "\<not> (c = backquote \<and> takeWhile is_identifier_char cs \<noteq> []
        \<and> prefix [backquote] (dropWhile is_identifier_char cs))"
  shows "backquotes_doubled (c # cs) (c # t)"
  using assms
proof (cases rule: backquotes_doubled.cases)
  case plain
  with assms(2) have "\<not> has_backquoted_identifier (c # cs)" by simp
  with plain show ?thesis by (auto intro: backquotes_doubled.plain)
next
  case (token before ident rest rest')
  from assms(2) token(1) match_up_to_backquote [of before "ident @ [backquote] @ rest"]
  have "\<not> (c = backquote \<and> takeWhile is_identifier_char (before @ [backquote]) \<noteq> []
      \<and> prefix [backquote] (dropWhile is_identifier_char (before @ [backquote])))"
    by auto
  with token(3) have "\<not> has_backquoted_identifier ((c # before) @ [backquote])" by simp
  from backquotes_doubled.token [OF this token(4,5,6)] token(1,2) show ?thesis by simp
qed

lemma backquotes_doubled_sub_identifiers: "backquotes_doubled s (sub_identifiers s)"
proof (induction s rule: sub_identifiers.induct)
  case 1
  show ?case by (simp add: backquotes_doubled.plain)
next
  case (2 c cs)
  let ?ident = "takeWhile is_identifier_char cs"
  let ?rest = "dropWhile is_identifier_char cs"
  show ?case
  proof (cases "c = backquote \<and> ?ident \<noteq> [] \<and> prefix [backquote] ?rest")
    case True
    then obtain rest where rest: "?rest = backquote # rest" by (auto simp: prefix_def)
    have cs: "cs = ?ident @ backquote # rest"
      using takeWhile_dropWhile_id [of is_identifier_char cs] rest by simp
    have "\<not> has_backquoted_identifier ([] @ [backquote])" by simp
    moreover have "list_all is_identifier_char ?ident"
      by (auto simp: list_all_iff dest: set_takeWhileD)
    moreover from "2.IH"(1) True rest have "backquotes_doubled rest (sub_identifiers rest)"
      by simp
    ultimately have "backquotes_doubled ([] @ [backquote] @ ?ident @ [backquote] @ rest)
        ([] @ [backquote, backquote] @ ?ident @ [backquote, backquote] @ sub_identifiers rest)"
      using True by (intro backquotes_doubled.token) simp_all
    moreover have "c # cs = [] @ [backquote] @ ?ident @ [backquote] @ rest"
      using True cs by simp
    moreover have "sub_identifiers (c # cs)
        = [] @ [backquote, backquote] @ ?ident @ [backquote, backquote] @ sub_identifiers rest"
      using True rest by simp
    ultimately show ?thesis by (simp del: sub_identifiers.simps)
  next
    case False
    with "2.IH"(2) have "backquotes_doubled cs (sub_identifiers cs)" by simp
    from backquotes_doubled_Cons [OF this False] False show ?thesis by auto
  qed
qed

text \<open>
  C8. \<open>clean_docstring\<close> takes the marker line out, strips the text and then doubles
  the backquotes of every backquoted identifier, from left to right, leaving all the rest
  as it is: its result is the one text that \<open>backquotes_doubled\<close> relates to the
  stripped text. A text in which no backquoted token is an identifier (the token has a
  digit, a hyphen, a space) is left as it is. The two examples of the specification
  follow.
\<close>

theorem clean_docstring_doubles_every_identifier:
  "backquotes_doubled (strip (str_replace x (autodoc_marker @ [CHR 0x0A]) []))
     (clean_docstring x)
   \<and> (\<forall>z. backquotes_doubled (strip (str_replace x (autodoc_marker @ [CHR 0x0A]) [])) z
          \<longrightarrow> z = clean_docstring x)
   \<and> (\<not> has_backquoted_identifier (strip (str_replace x (autodoc_marker @ [CHR 0x0A]) []))
          \<longrightarrow> clean_docstring x = strip (str_replace x (autodoc_marker @ [CHR 0x0A]) []))
   \<and> clean_docstring ([backquote] @ ''foo_bar'' @ [backquote] @ '' is good'')
        = [backquote, backquote] @ ''foo_bar'' @ [backquote, backquote] @ '' is good''
   \<and> clean_docstring ([backquote] @ ''foo-bar'' @ [backquote])
        = [backquote] @ ''foo-bar'' @ [backquote]"
proof (intro conjI allI impI)
  show "backquotes_doubled (strip (str_replace x (autodoc_marker @ [CHR 0x0A]) []))
      (clean_docstring x)"
    unfolding clean_docstring_def by (rule backquotes_doubled_sub_identifiers)
next
  fix z
  assume "backquotes_doubled (strip (str_replace x (autodoc_marker @ [CHR 0x0A]) [])) z"
  then show "z = clean_docstring x"
    unfolding clean_docstring_def by (rule backquotes_doubled_unique)
next
  assume "\<not> has_backquoted_identifier (strip (str_replace x (autodoc_marker @ [CHR 0x0A]) []))"
  then show "clean_docstring x = strip (str_replace x (autodoc_marker @ [CHR 0x0A]) [])"
    unfolding clean_docstring_def by (rule sub_identifiers_absent)
next
  show "clean_docstring ([backquote] @ ''foo_bar'' @ [backquote] @ '' is good'')
        = [backquote, backquote] @ ''foo_bar'' @ [backquote, backquote] @ '' is good''"
    by (simp add: clean_docstring_def autodoc_marker_def strip_def lstrip_def rstrip_def
        is_space_def backquote_def is_identifier_char_def uppercase_def lowercase_def)
next
  show "clean_docstring ([backquote] @ ''foo-bar'' @ [backquote])
        = [backquote] @ ''foo-bar'' @ [backquote]"
    by (simp add: clean_docstring_def autodoc_marker_def strip_def lstrip_def rstrip_def
        is_space_def backquote_def is_identifier_char_def uppercase_def lowercase_def)
qed

theorem clean_docstring_doubles_every_identifier_witness:
  "clean_docstring ('' << autodoc-me >>'' @ [CHR 0x0A] @ [backquote] @ ''a-b'' @ [backquote]
       @ '' and '' @ [backquote] @ ''foo'' @ [backquote] @ '', '' @ [backquote] @ ''Main''
       @ [backquote] @ [CHR 0x0A])
     = [backquote] @ ''a-b'' @ [backquote] @ '' and '' @ [backquote, backquote] @ ''foo''
       @ [backquote, backquote] @ '', '' @ [backquote, backquote] @ ''Main''
       @ [backquote, backquote]"
proof -
  let ?x = "'' << autodoc-me >>'' @ [CHR 0x0A] @ [backquote] @ ''a-b'' @ [backquote]
       @ '' and '' @ [backquote] @ ''foo'' @ [backquote] @ '', '' @ [backquote] @ ''Main''
       @ [backquote] @ [CHR 0x0A]"
  let ?before = "[backquote] @ ''a-b'' @ [backquote] @ '' and ''"
  have y: "strip (str_replace ?x (autodoc_marker @ [CHR 0x0A]) [])
      = ?before @ [backquote] @ ''foo'' @ [backquote]
          @ ('', '' @ [backquote] @ ''Main'' @ [backquote] @ [])"
    by (simp add: autodoc_marker_def strip_def lstrip_def rstrip_def is_space_def backquote_def)
  have ident: "list_all is_identifier_char ''foo''" "list_all is_identifier_char ''Main''"
    by (simp_all add: is_identifier_char_def uppercase_def lowercase_def)
  have none: "\<not> has_backquoted_identifier (?before @ [backquote])"
    "\<not> has_backquoted_identifier ('', '' @ [backquote])"
    "\<not> has_backquoted_identifier []"
    by (simp_all add: backquote_def is_identifier_char_def uppercase_def lowercase_def)
  have t0: "backquotes_doubled [] []"
    by (rule backquotes_doubled.plain) simp
  have t1: "backquotes_doubled ('', '' @ [backquote] @ ''Main'' @ [backquote] @ [])
      ('', '' @ [backquote, backquote] @ ''Main'' @ [backquote, backquote] @ [])"
    by (rule backquotes_doubled.token [OF none(2) _ ident(2) t0]) simp
  have "backquotes_doubled
      (?before @ [backquote] @ ''foo'' @ [backquote]
          @ ('', '' @ [backquote] @ ''Main'' @ [backquote] @ []))
      (?before @ [backquote, backquote] @ ''foo'' @ [backquote, backquote]
          @ ('', '' @ [backquote, backquote] @ ''Main'' @ [backquote, backquote] @ []))"
    by (rule backquotes_doubled.token [OF none(1) _ ident(1) t1]) simp
  with clean_docstring_doubles_every_identifier [of ?x] y
  have "?before @ [backquote, backquote] @ ''foo'' @ [backquote, backquote]
          @ ('', '' @ [backquote, backquote] @ ''Main'' @ [backquote, backquote] @ [])
      = clean_docstring ?x"
    by simp
  then show ?thesis by simp
qed

section \<open>Properties of the discovery\<close>

lemma is_line_of_cases:
  "is_line_of l s \<longleftrightarrow> is_first_line_of l s \<or> is_later_line_of l s"
  unfolding is_line_of_def is_first_line_of_def is_later_line_of_def
  by (metis append_Nil)

lemma is_later_line_of_Nil [simp]: "\<not> is_later_line_of l []"
  by (simp add: is_later_line_of_def)

lemma is_later_line_of_Cons:
  "is_later_line_of l (c # cs) \<longleftrightarrow>
     (is_line_end c \<and> is_first_line_of l cs) \<or> is_later_line_of l cs"
proof
  assume "is_later_line_of l (c # cs)"
  then obtain before after where eq: "c # cs = before @ l @ after" and ne: "before \<noteq> []"
    and le: "is_line_end (last before)" and af: "after = [] \<or> is_line_end (hd after)"
    unfolding is_later_line_of_def by blast
  from eq ne obtain b where b: "before = c # b" "cs = b @ l @ after"
    by (cases before) auto
  show "(is_line_end c \<and> is_first_line_of l cs) \<or> is_later_line_of l cs"
  proof (cases b)
    case Nil
    with b le af show ?thesis by (auto simp: is_first_line_of_def)
  next
    case (Cons x xs)
    with b le af show ?thesis unfolding is_later_line_of_def by (metis last_ConsR list.discI)
  qed
next
  assume "(is_line_end c \<and> is_first_line_of l cs) \<or> is_later_line_of l cs"
  then show "is_later_line_of l (c # cs)"
  proof
    assume "is_line_end c \<and> is_first_line_of l cs"
    then obtain after where "cs = l @ after" "after = [] \<or> is_line_end (hd after)" "is_line_end c"
      unfolding is_first_line_of_def by blast
    then have "c # cs = [c] @ l @ after \<and> [c] \<noteq> [] \<and> is_line_end (last [c])
        \<and> (after = [] \<or> is_line_end (hd after))" by simp
    then show ?thesis unfolding is_later_line_of_def by blast
  next
    assume "is_later_line_of l cs"
    then obtain before after where "cs = before @ l @ after" "before \<noteq> []"
      "is_line_end (last before)" "after = [] \<or> is_line_end (hd after)"
      unfolding is_later_line_of_def by blast
    then have "c # cs = (c # before) @ l @ after \<and> c # before \<noteq> []
        \<and> is_line_end (last (c # before)) \<and> (after = [] \<or> is_line_end (hd after))" by simp
    then show ?thesis unfolding is_later_line_of_def by blast
  qed
qed

lemma is_first_line_of_line_end:
  assumes "l \<noteq> []" and "\<forall>x\<in>set l. \<not> is_line_end x" and "is_line_end c"
  shows "\<not> is_first_line_of l (c # cs)"
  using assms unfolding is_first_line_of_def by (cases l) auto

lemma is_first_line_of_whole:
  assumes "\<forall>x\<in>set cur. \<not> is_line_end x"
  shows "is_first_line_of l cur \<longleftrightarrow> l = cur"
proof
  assume "is_first_line_of l cur"
  then obtain after where a: "cur = l @ after" "after = [] \<or> is_line_end (hd after)"
    unfolding is_first_line_of_def by blast
  with assms have "after = []" by (cases after) auto
  with a show "l = cur" by simp
next
  assume "l = cur"
  then show "is_first_line_of l cur" by (simp add: is_first_line_of_def)
qed

lemma is_first_line_of_before_line_end:
  assumes "\<forall>x\<in>set l. \<not> is_line_end x" and "\<forall>x\<in>set cur. \<not> is_line_end x"
    and "is_line_end c"
  shows "is_first_line_of l (cur @ c # cs) \<longleftrightarrow> l = cur"
proof
  assume "is_first_line_of l (cur @ c # cs)"
  then obtain after where a: "cur @ c # cs = l @ after" "after = [] \<or> is_line_end (hd after)"
    unfolding is_first_line_of_def by blast
  from a(1) obtain us where "(cur = l @ us \<and> us @ c # cs = after) \<or> (cur @ us = l \<and> c # cs = us @ after)"
    by (auto simp: append_eq_append_conv2)
  then show "l = cur"
  proof
    assume h: "cur = l @ us \<and> us @ c # cs = after"
    show ?thesis
    proof (cases us)
      case Nil
      with h show ?thesis by simp
    next
      case (Cons u us')
      with h a(2) have "is_line_end u" by auto
      moreover from h Cons have "u \<in> set cur" by simp
      ultimately show ?thesis using assms(2) by blast
    qed
  next
    assume h: "cur @ us = l \<and> c # cs = us @ after"
    show ?thesis
    proof (cases us)
      case Nil
      with h show ?thesis by simp
    next
      case (Cons u us')
      with h have "u = c" "u \<in> set l" by auto
      with assms(1,3) show ?thesis by blast
    qed
  qed
next
  assume "l = cur"
  with assms(3) show "is_first_line_of l (cur @ c # cs)"
    by (auto simp: is_first_line_of_def)
qed

lemma line_end_simps [simp]: "is_line_end (CHR 0x0A)" "is_line_end (CHR 0x0D)"
  by (simp_all add: is_line_end_def)

lemma splitlines_from_iff:
  assumes "l \<noteq> []" and "\<forall>x\<in>set l. \<not> is_line_end x"
  shows "\<forall>x\<in>set cur. \<not> is_line_end x \<Longrightarrow>
     l \<in> set (splitlines_from cur s) \<longleftrightarrow> is_first_line_of l (cur @ s) \<or> is_later_line_of l s"
proof (induction cur s rule: splitlines_from.induct)
  case (1 cur)
  with assms show ?case by (auto simp: is_first_line_of_whole)
next
  case (2 cur c cs)
  note fl = is_first_line_of_before_line_end [OF assms(2) "2.prems"]
  note nf = is_first_line_of_line_end [OF assms]
  show ?case
  proof (cases "c = CHR 0x0A")
    case True
    with "2.IH"(1) show ?thesis
      by (auto simp: fl is_later_line_of_Cons)
  next
    case nLF: False
    show ?thesis
    proof (cases "c = CHR 0x0D")
      case True
      show ?thesis
      proof (cases cs)
        case Nil
        with True assms(1) show ?thesis
          by (auto simp: fl is_later_line_of_Cons is_first_line_of_whole [of "[]"])
      next
        case (Cons d ds)
        show ?thesis
        proof (cases "d = CHR 0x0A")
          case dLF: True
          with True nLF Cons "2.IH"(2) [of d ds] show ?thesis
            by (auto simp: fl nf is_later_line_of_Cons)
        next
          case False
          with True nLF Cons "2.IH"(3) [of d ds] show ?thesis
            by (auto simp: fl is_later_line_of_Cons)
        qed
      qed
    next
      case False
      with nLF have ne: "\<not> is_line_end c" by (simp add: is_line_end_def)
      with "2.prems" have "\<forall>x\<in>set (cur @ [c]). \<not> is_line_end x" by simp
      from "2.IH"(4) [OF nLF False this] ne nLF False show ?thesis
        by (simp add: is_later_line_of_Cons)
    qed
  qed
qed

lemma autodoc_marker_no_line_end:
  "autodoc_marker \<noteq> []" "\<forall>x\<in>set autodoc_marker. \<not> is_line_end x"
  by (simp_all add: autodoc_marker_def is_line_end_def)

lemma has_marker_line_iff: "has_marker_line data \<longleftrightarrow> is_line_of autodoc_marker data"
  unfolding has_marker_line_def splitlines_def is_line_of_cases
  using splitlines_from_iff [OF autodoc_marker_no_line_end, of "[]" data] by simp


lemma suffix_join:
  assumes "CHR ''/'' \<notin> set ext"
  shows "suffix ext (join d f) \<longleftrightarrow> suffix ext f"
proof -
  have "suffix ext (CHR ''/'' # f) \<longleftrightarrow> suffix ext f"
    using assms by (auto simp: suffix_Cons)
  moreover have "suffix ext (xs @ CHR ''/'' # f) \<longleftrightarrow> suffix ext (CHR ''/'' # f)" for xs
    using assms by (auto simp: suffix_append)
  ultimately have sep: "suffix ext (xs @ CHR ''/'' # f) \<longleftrightarrow> suffix ext f" for xs
    by simp
  show ?thesis
  proof (cases "prefix ''/'' f")
    case True
    then show ?thesis by (simp add: join_def)
  next
    case nf: False
    show ?thesis
    proof (cases "d = []")
      case True
      with nf show ?thesis by (simp add: join_def)
    next
      case nd: False
      show ?thesis
      proof (cases "suffix ''/'' d")
        case True
        then obtain d' where "d = d' @ ''/''" by (auto simp: suffix_def)
        with nf nd sep [of d'] show ?thesis by (simp add: join_def)
      next
        case False
        with nf nd sep [of d] show ?thesis by (simp add: join_def)
      qed
    qed
  qed
qed

lemma concat_map_concat_map:
  "concat (map g (concat (map h xs))) = concat (map (\<lambda>x. concat (map g (h x))) xs)"
  by (induction xs) simp_all

lemma tree_paths_walk:
  "tree_paths dirpath t
     = concat (map (\<lambda>(d, dirnames, filenames). map (join d) filenames) (os_walk dirpath t))"
proof (induction dirpath t rule: os_walk.induct)
  case (1 dirpath filenames dirs)
  let ?paths = "\<lambda>(d, dirnames, filenames). map (join d) filenames"
  have "map (\<lambda>(name, t). tree_paths (join dirpath name) t) dirs
      = map (\<lambda>(name, t). concat (map ?paths (os_walk (join dirpath name) t))) dirs"
    using "1.IH" by (intro map_cong) auto
  then have "concat (map (\<lambda>(name, t). tree_paths (join dirpath name) t) dirs)
      = concat (map (\<lambda>(name, t). concat (map ?paths (os_walk (join dirpath name) t))) dirs)"
    by (rule arg_cong)
  also have "\<dots> = concat (map ?paths
      (concat (map (\<lambda>(name, t). os_walk (join dirpath name) t) dirs)))"
    unfolding concat_map_concat_map by (simp add: case_prod_unfold)
  finally show ?case by simp
qed

lemma read_file_is_file: "is_file files p \<Longrightarrow> read_file files p = Inr (text_at files p)"
  by (simp add: read_file_def is_file_def text_at_def split: option.splits node.splits)

subsection \<open>The three examples\<close>

lemma examples_walk:
  "os_walk examples_dir examples_tree =
     [(''/repo/examples'', [''widgets''], [''hello.enaml'', ''README.txt'']),
      (''/repo/examples/widgets'', [], [''button.enaml'', ''slider.enaml''])]"
  by (simp add: examples_dir_def examples_tree_def join_def suffix_to_prefix)

lemma examples_paths:
  "tree_paths examples_dir examples_tree =
     [''/repo/examples/hello.enaml'', ''/repo/examples/README.txt'',
      ''/repo/examples/widgets/button.enaml'', ''/repo/examples/widgets/slider.enaml'']"
  by (simp add: examples_dir_def examples_tree_def join_def suffix_to_prefix)

lemma examples_marked:
  "has_marker_line (text_at examples_files ''/repo/examples/hello.enaml'')"
  "\<not> has_marker_line (text_at examples_files ''/repo/examples/widgets/button.enaml'')"
  "has_marker_line (text_at examples_files ''/repo/examples/widgets/slider.enaml'')"
  by (simp_all add: has_marker_line_def splitlines_def text_at_def examples_files_def
      unlines_def autodoc_marker_def triple_quote_def)

lemma examples_is_file:
  "is_file examples_files ''/repo/examples/hello.enaml''"
  "is_file examples_files ''/repo/examples/README.txt''"
  "is_file examples_files ''/repo/examples/widgets/button.enaml''"
  "is_file examples_files ''/repo/examples/widgets/slider.enaml''"
  by (simp_all add: is_file_def examples_files_def)

section \<open>Properties of the run\<close>

lemma generate_files_append:
  "generate_files cap docs_path (xs @ ys) w =
     (case generate_files cap docs_path xs w of
        (Some e, w') \<Rightarrow> (Some e, w')
      | (None, w') \<Rightarrow> generate_files cap docs_path ys w')"
  by (induction xs arbitrary: w) (auto split: sum.splits prod.splits option.splits)

lemma generate_walk_append:
  "generate_walk cap docs_path white_list (xs @ ys) w =
     (case generate_walk cap docs_path white_list xs w of
        (Some e, w') \<Rightarrow> (Some e, w')
      | (None, w') \<Rightarrow> generate_walk cap docs_path white_list ys w')"
  by (induction xs arbitrary: w) (auto split: prod.splits option.splits)

lemma generate_example_doc_malformed:
  assumes "capture_step cap script_path (script_name_of script_path)
      (image_path_of docs_path (script_name_of script_path))
      (print (''generating doc for '' @ script_name_of script_path) w) = (Inr snapshot_success, w')"
    and "read_text (fs w') script_path = Inr script_text"
    and "extract_docstring script_text = Inl e"
  shows "generate_example_doc cap docs_path script_path w = (Some e, w')"
  using assms by (simp add: generate_example_doc_def Let_def)

text \<open>
  C6. The run has come to an example \<open>fname\<close>: the directories before its directory
  and the files before it are done, it has the marker line, the capture step returns and
  the source is read. If now \<open>extract_docstring\<close> fails, its error is the result of
  \<open>main\<close>, and the world is left as it was after the capture step of this example:
  no document is written for it and no file or directory after it is looked at.
\<close>

theorem main_stops_at_malformed_source:
  assumes "os_walk base_path examples = before @ entry # after"
    and "generate_walk cap docs_path white_list before w = (None, w0)"
    and "selected_files white_list entry = pre @ fname # post"
    and "generate_files cap docs_path pre w0 = (None, w1)"
    and "read_file (fs w1) fname = Inr data"
    and "has_marker_line data"
    and "capture_step cap fname (script_name_of fname)
      (image_path_of docs_path (script_name_of fname))
      (print (''generating doc for '' @ script_name_of fname) w1) = (Inr snapshot_success, w2)"
    and "read_text (fs w2) fname = Inr script_text"
    and "extract_docstring script_text = Inl e"
  shows "main cap docs_path base_path examples white_list w = (Some e, w2)"
proof -
  from assms(7-9) have "generate_example_doc cap docs_path fname w1 = (Some e, w2)"
    by (rule generate_example_doc_malformed)
  with assms(5,6) have "generate_files cap docs_path (fname # post) w1 = (Some e, w2)"
    by simp
  with assms(3,4) have "generate_files cap docs_path (selected_files white_list entry) w0
      = (Some e, w2)"
    by (simp add: generate_files_append)
  then have "generate_walk cap docs_path white_list (entry # after) w0 = (Some e, w2)"
    by simp
  with assms(1,2) show ?thesis
    by (simp add: main_def generate_walk_append)
qed


lemma hello_names:
  "script_name_of ''/repo/examples/hello.enaml'' = ''hello''"
  "dirname ''/repo/examples/hello.enaml'' = ''/repo/examples''"
  "image_path_of docs_dir ''hello'' = ''/repo/docs/source/examples/images/ex_hello.png''"
  by (simp_all add: script_name_of_def basename_def dirname_def slice_to_def py_find_def
      image_path_of_def script_image_name_of_def docs_dir_def join_def suffix_to_prefix)

lemma hello_capture:
  "fst (capture_step snapshot_saved ''/repo/examples/hello.enaml'' ''hello''
      ''/repo/docs/source/examples/images/ex_hello.png''
      (print ''generating doc for hello'' examples_world)) = Inr True"
  by (simp add: capture_step_def snapshot_saved_def hello_names print_def examples_world_def
      rmtree_def join_def suffix_to_prefix split_beta Let_def)

lemma hello_after_capture:
  "read_text (fs (snd (capture_step snapshot_saved ''/repo/examples/hello.enaml'' ''hello''
      ''/repo/docs/source/examples/images/ex_hello.png''
      (print ''generating doc for hello'' examples_world)))) ''/repo/examples/hello.enaml''
    = Inr (unlines [''# Hello'', ''<< autodoc-me >>'', ''enamldef Main(Window): pass''])"
  "stdout (snd (capture_step snapshot_saved ''/repo/examples/hello.enaml'' ''hello''
      ''/repo/docs/source/examples/images/ex_hello.png''
      (print ''generating doc for hello'' examples_world))) = [''generating doc for hello'']"
  "fs (snd (capture_step snapshot_saved ''/repo/examples/hello.enaml'' ''hello''
      ''/repo/docs/source/examples/images/ex_hello.png''
      (print ''generating doc for hello'' examples_world)))
      ''/repo/docs/source/examples/ex_slider.rst'' = None"
  by (simp_all add: capture_step_def snapshot_saved_def hello_names print_def examples_world_def
      rmtree_def join_def suffix_to_prefix split_beta Let_def read_text_def read_file_def
      examples_files_def unlines_def)

theorem main_stops_at_malformed_source_witness:
  "has_marker_line (unlines [''# Hello'', ''<< autodoc-me >>'', ''enamldef Main(Window): pass''])
   \<and> extract_docstring (unlines [''# Hello'', ''<< autodoc-me >>'', ''enamldef Main(Window): pass''])
       = Inl IndexError
   \<and> fst (main snapshot_saved docs_dir examples_dir examples_tree [] examples_world)
       = Some IndexError
   \<and> stdout (snd (main snapshot_saved docs_dir examples_dir examples_tree [] examples_world))
       = [''generating doc for hello'']
   \<and> fs (snd (main snapshot_saved docs_dir examples_dir examples_tree [] examples_world))
       ''/repo/docs/source/examples/ex_slider.rst'' = None"
proof -
  let ?hello = "''/repo/examples/hello.enaml''"
  let ?text = "unlines [''# Hello'', ''<< autodoc-me >>'', ''enamldef Main(Window): pass'']"
  let ?w2 = "snd (capture_step snapshot_saved ?hello ''hello''
      ''/repo/docs/source/examples/images/ex_hello.png''
      (print ''generating doc for hello'' examples_world))"
  have walk: "os_walk examples_dir examples_tree =
      [] @ (''/repo/examples'', [''widgets''], [''hello.enaml'', ''README.txt''])
        # [(''/repo/examples/widgets'', [], [''button.enaml'', ''slider.enaml''])]"
    by (simp add: examples_walk)
  have before: "generate_walk snapshot_saved docs_dir [] [] examples_world = (None, examples_world)"
    by simp
  have selected: "selected_files [] (''/repo/examples'', [''widgets''], [''hello.enaml'', ''README.txt''])
      = [] @ ?hello # []"
    by (simp add: selected_files_def join_def suffix_to_prefix)
  have pre: "generate_files snapshot_saved docs_dir [] examples_world = (None, examples_world)"
    by simp
  have data: "read_file (fs examples_world) ?hello = Inr ?text"
    by (simp add: examples_world_def read_file_def examples_files_def)
  have marked: "has_marker_line ?text"
    by (simp add: has_marker_line_def splitlines_def unlines_def autodoc_marker_def)
  have captured: "capture_step snapshot_saved ?hello (script_name_of ?hello)
      (image_path_of docs_dir (script_name_of ?hello))
      (print (''generating doc for '' @ script_name_of ?hello) examples_world) = (Inr True, ?w2)"
    using hello_capture by (simp add: hello_names prod_eq_iff)
  have malformed: "extract_docstring ?text = Inl IndexError"
    by (simp add: extract_docstring_def str_split_def getitem_def unlines_def triple_quote_def)
  from main_stops_at_malformed_source
    [OF walk before selected pre data marked captured hello_after_capture(1) malformed]
  have "main snapshot_saved docs_dir examples_dir examples_tree [] examples_world
      = (Some IndexError, ?w2)" .
  with marked malformed hello_after_capture(2,3) show ?thesis by simp
qed

section \<open>The capture step and the cache directory\<close>

lemma capture_step_restores:
  "capture_step cap script_path script_name image_path w = (Inr snapshot_success, w')
     \<Longrightarrow> sys_path w' = sys_path w"
  by (auto simp: capture_step_def Let_def split: prod.splits sum.splits outcome.splits)

lemma capture_step_raised:
  assumes "cap script_name image_path (w\<lparr>sys_path := sys_path w @ [dirname script_path]\<rparr>)
      = (Raised msg, w2)"
    and "rmtree (fs w2) (join (dirname script_path) ''__enamlcache__'') = Inr files"
  shows "capture_step cap script_path script_name image_path w =
     (Inr False,
      (print (''    '' @ msg) (print (''Could not snapshot: '' @ script_name) w2))
        \<lparr>fs := files, sys_path := sys_path w\<rparr>)"
  using assms by (simp add: capture_step_def Let_def print_def)

lemma capture_step_cache_absent:
  assumes "cap script_name image_path (w\<lparr>sys_path := sys_path w @ [dirname script_path]\<rparr>)
      = (out, w2)"
    and "fs w2 (join (dirname script_path) ''__enamlcache__'') = None"
  shows "fst (capture_step cap script_path script_name image_path w) = Inl FileNotFoundError"
    and "sys_path (snd (capture_step cap script_path script_name image_path w)) = sys_path w2"
  using assms
  by (simp_all add: capture_step_def Let_def print_def rmtree_def split: outcome.splits)

lemma generate_example_doc_without_screenshot:
  assumes "capture_step cap script_path (script_name_of script_path)
      (image_path_of docs_path (script_name_of script_path))
      (print (''generating doc for '' @ script_name_of script_path) w) = (Inr False, w')"
    and "read_text (fs w') script_path = Inr script_text"
    and "extract_docstring script_text = Inr raw"
    and "write_file (fs w') (rst_path_of docs_path (script_name_of script_path))
      (lstrip (EXAMPLE_DOC_RST_TEMPLATE (script_title_of (script_name_of script_path))
         (script_name_of script_path) (relative_script_path_of script_path)
         (clean_docstring raw) [])) = Inr files"
  shows "generate_example_doc cap docs_path script_path w = (None, w'\<lparr>fs := files\<rparr>)"
  using assms by (simp add: generate_example_doc_def Let_def)

lemma slider_names:
  "script_name_of ''/repo/examples/widgets/slider.enaml'' = ''slider''"
  "dirname ''/repo/examples/widgets/slider.enaml'' = ''/repo/examples/widgets''"
  "image_path_of docs_dir ''slider'' = ''/repo/docs/source/examples/images/ex_slider.png''"
  "rst_path_of docs_dir ''slider'' = ''/repo/docs/source/examples/ex_slider.rst''"
  by (simp_all add: script_name_of_def basename_def dirname_def slice_to_def py_find_def
      image_path_of_def script_image_name_of_def rst_path_of_def docs_dir_def join_def
      suffix_to_prefix)

lemma slider_capture_import_fails:
  "capture_step import_fails ''/repo/examples/widgets/slider.enaml'' ''slider''
      ''/repo/docs/source/examples/images/ex_slider.png''
      (print ''generating doc for slider'' examples_world)
   = (Inl FileNotFoundError,
      \<lparr>sys_path = [''/usr/lib/python3'', ''/repo/examples/widgets''],
       fs = examples_files,
       stdout = [''generating doc for slider'', ''Could not snapshot: slider'',
                 ''    invalid syntax (slider.enaml, line 1)'']\<rparr>)"
  by (simp add: capture_step_def import_fails_def slider_names print_def examples_world_def
      rmtree_def join_def suffix_to_prefix Let_def examples_files_def)

text \<open>
  C2, on the code. The cache directory is absent when the \<^verbatim>\<open>finally\<close> clause runs (the
  import has raised before writing a cache): \<^verbatim>\<open>shutil.rmtree\<close> is called without
  \<^verbatim>\<open>ignore_errors\<close> and raises FileNotFoundError, which leaves the capture step.
\<close>

theorem cleanup_raises_without_cache_directory:
  "fs examples_world ''/repo/examples/widgets/__enamlcache__'' = None
   \<and> fst (capture_step import_fails ''/repo/examples/widgets/slider.enaml'' ''slider''
        ''/repo/docs/source/examples/images/ex_slider.png''
        (print ''generating doc for slider'' examples_world)) = Inl FileNotFoundError"
  by (simp add: slider_capture_import_fails) (simp add: examples_world_def examples_files_def)

text \<open>
  C3, on the code. The assignment that restores the search path stands after the
  \<^verbatim>\<open>with\<close> block: when \<^verbatim>\<open>rmtree\<close> raises in the \<^verbatim>\<open>finally\<close> clause it is not
  reached, and the capture step and \<open>generate_example_doc\<close> end with the directory of
  the example still on the search path. (When the capture step returns, the search path is
  restored: \<open>capture_step_restores\<close>.)
\<close>

theorem search_path_not_restored_when_cleanup_raises:
  "sys_path examples_world = [''/usr/lib/python3'']
   \<and> sys_path (snd (capture_step import_fails ''/repo/examples/widgets/slider.enaml'' ''slider''
        ''/repo/docs/source/examples/images/ex_slider.png''
        (print ''generating doc for slider'' examples_world)))
       = [''/usr/lib/python3'', ''/repo/examples/widgets'']
   \<and> sys_path (snd (generate_example_doc import_fails docs_dir
        ''/repo/examples/widgets/slider.enaml'' examples_world))
       = [''/usr/lib/python3'', ''/repo/examples/widgets'']"
  by (simp add: generate_example_doc_def Let_def slider_names slider_capture_import_fails)
    (simp add: examples_world_def)

text \<open>
  C4, on the code. The exception of the capability is caught and reported, but the
  \<^verbatim>\<open>finally\<close> clause then raises FileNotFoundError for the absent cache directory:
  \<open>generate_example_doc\<close> ends with this error and no document is written. (With the
  cache directory in place the document is written without screenshot section:
  \<open>capture_step_raised\<close> and \<open>generate_example_doc_without_screenshot\<close>.)
\<close>

theorem no_document_when_capture_raises:
  "generate_example_doc import_fails docs_dir ''/repo/examples/widgets/slider.enaml''
     examples_world
   = (Some FileNotFoundError,
      \<lparr>sys_path = [''/usr/lib/python3'', ''/repo/examples/widgets''],
       fs = examples_files,
       stdout = [''generating doc for slider'', ''Could not snapshot: slider'',
                 ''    invalid syntax (slider.enaml, line 1)'']\<rparr>)
   \<and> examples_files ''/repo/docs/source/examples/ex_slider.rst'' = None"
  by (simp add: generate_example_doc_def Let_def slider_names slider_capture_import_fails)
    (simp add: examples_files_def)

section \<open>The base name\<close>

lemma str_find_char:
  "c \<notin> set name \<Longrightarrow> str_find (name @ c # rest) [c] = Some (length name)"
  by (induction name) auto

lemma basename_join:
  assumes "CHR ''/'' \<notin> set filename"
  shows "basename (dir @ ''/'' @ filename) = filename"
proof -
  have "takeWhile (\<lambda>c. c \<noteq> CHR ''/'') (rev filename @ CHR ''/'' # rev dir) = rev filename"
    using assms by (subst takeWhile_append2) auto
  then show ?thesis by (simp add: basename_def)
qed

lemma script_name_of_one_dot:
  assumes "CHR ''.'' \<notin> set name" and "CHR ''/'' \<notin> set name"
  shows "script_name_of (dir @ ''/'' @ name @ ''.enaml'') = name"
proof -
  from assms(2) have "CHR ''/'' \<notin> set (name @ ''.enaml'')" by simp
  then have "basename (dir @ ''/'' @ name @ ''.enaml'') = name @ ''.enaml''"
    by (rule basename_join)
  moreover have "str_find (name @ ''.enaml'') ''.'' = Some (length name)"
    using str_find_char [OF assms(1), of "''enaml''"] by simp
  ultimately show ?thesis
    by (simp add: script_name_of_def py_find_def slice_to_def)
qed

text \<open>
  C10, on the code. The name is cut at the first dot of the file name, not at its
  extension: for \<^verbatim>\<open>my.example.enaml\<close> the base name is \<^verbatim>\<open>my\<close>, not
  \<^verbatim>\<open>my.example\<close>, and the document goes to \<^verbatim>\<open>ex_my.rst\<close>. (For a file name with
  one dot the base name is the file name without its extension:
  \<open>script_name_of_one_dot\<close>.)
\<close>

theorem script_name_cut_at_first_dot:
  "basename ''/repo/examples/my.example.enaml'' = ''my.example'' @ ''.enaml''
   \<and> script_name_of ''/repo/examples/my.example.enaml'' = ''my''
   \<and> rst_path_of docs_dir (script_name_of ''/repo/examples/my.example.enaml'')
       = ''/repo/docs/source/examples/ex_my.rst''"
  by (simp add: script_name_of_def basename_def slice_to_def py_find_def rst_path_of_def
      docs_dir_def join_def suffix_to_prefix)

section \<open>Further properties\<close>

text \<open>
  \<open>str_find\<close> gives the first occurrence: the text has \<open>sub\<close> at the index found and
  at no index before it.
\<close>

lemma str_find_first:
  "str_find s sub = Some i \<Longrightarrow> prefix sub (drop i s) \<and> (\<forall>k<i. \<not> prefix sub (drop k s))"
proof (induction s arbitrary: i)
  case Nil
  then show ?case by (simp split: if_splits)
next
  case (Cons c cs)
  show ?case
  proof (cases "prefix sub (c # cs)")
    case True
    with Cons.prems show ?thesis by simp
  next
    case False
    with Cons.prems obtain j where j: "str_find cs sub = Some j" "i = Suc j" by auto
    from Cons.IH [OF j(1)] have ih: "prefix sub (drop j cs)" "\<forall>k<j. \<not> prefix sub (drop k cs)"
      by simp_all
    have "\<not> prefix sub (drop k (c # cs))" if "k < i" for k
    proof (cases k)
      case 0
      with False show ?thesis by simp
    next
      case (Suc k')
      with that j(2) ih(2) show ?thesis by simp
    qed
    with ih(1) j(2) show ?thesis by simp
  qed
qed

text \<open>The two loops of \<open>main\<close> are one loop over the files of all the directories.\<close>

lemma generate_walk_flat:
  "generate_walk cap docs_path white_list entries w =
     generate_files cap docs_path (concat (map (selected_files white_list) entries)) w"
  by (induction entries arbitrary: w)
    (simp_all add: generate_files_append split: prod.splits option.splits)

text \<open>When \<open>generate_example_doc\<close> returns, the search path is what it was.\<close>

lemma generate_example_doc_restores:
  assumes "generate_example_doc cap docs_path script_path w = (None, w')"
  shows "sys_path w' = sys_path w"
proof -
  let ?w = "print (''generating doc for '' @ script_name_of script_path) w"
  obtain r w1 where c: "capture_step cap script_path (script_name_of script_path)
      (image_path_of docs_path (script_name_of script_path)) ?w = (r, w1)"
    by (cases "capture_step cap script_path (script_name_of script_path)
      (image_path_of docs_path (script_name_of script_path)) ?w")
  with assms obtain ok where ok: "r = Inr ok"
    by (cases r) (auto simp: generate_example_doc_def Let_def)
  with c have "sys_path w1 = sys_path ?w" by (auto dest: capture_step_restores)
  moreover from assms c ok have "sys_path w' = sys_path w1"
    by (auto simp: generate_example_doc_def Let_def split: sum.splits)
  ultimately show ?thesis by (simp add: print_def)
qed

section \<open>The walk of main\<close>

lemma selected_files_filter:
  "selected_files white_list (dirpath, dirnames, filenames) =
     filter (\<lambda>p. suffix ''.enaml'' p \<and> (white_list = [] \<or> (\<exists>x\<in>set white_list. suffix x p)))
       (map (join dirpath) filenames)"
  by (simp add: selected_files_def Let_def filter_map comp_def suffix_join list_ex_iff)

lemma selected_walk_filter:
  "concat (map (selected_files white_list) (os_walk base_path examples)) =
     filter (\<lambda>p. suffix ''.enaml'' p \<and> (white_list = [] \<or> (\<exists>x\<in>set white_list. suffix x p)))
       (tree_paths base_path examples)"
proof -
  let ?Q = "\<lambda>p. suffix ''.enaml'' p \<and> (white_list = [] \<or> (\<exists>x\<in>set white_list. suffix x p))"
  have "selected_files white_list
      = (\<lambda>(d, dirnames, filenames). filter ?Q (map (join d) filenames))"
    by (rule ext) (auto simp: selected_files_filter)
  then have "concat (map (selected_files white_list) entries)
      = filter ?Q (concat (map (\<lambda>(d, dirnames, filenames). map (join d) filenames) entries))"
    for entries
    by (simp add: filter_concat comp_def case_prod_unfold)
  then show ?thesis by (simp add: tree_paths_walk)
qed

lemma generate_files_each:
  assumes "\<forall>q\<in>set paths. is_file (fs w) q"
    and "\<forall>p\<in>set paths. \<forall>w1 w2. generate_example_doc cap docs_path p w1 = (None, w2)
        \<longrightarrow> (\<forall>q\<in>set paths. fs w2 q = fs w1 q)"
  shows "set files \<subseteq> set paths \<Longrightarrow> \<forall>q\<in>set paths. fs w' q = fs w q \<Longrightarrow>
     generate_files cap docs_path files w' =
       generate_each cap docs_path
         (filter (\<lambda>p. is_line_of autodoc_marker (text_at (fs w) p)) files) w'"
proof (induction files arbitrary: w')
  case Nil
  then show ?case by simp
next
  case (Cons f files)
  from Cons.prems have f: "f \<in> set paths" and sub: "set files \<subseteq> set paths" by simp_all
  from f Cons.prems(2) have same: "fs w' f = fs w f" by blast
  with f assms(1) have "is_file (fs w') f" by (simp add: is_file_def)
  then have read: "read_file (fs w') f = Inr (text_at (fs w) f)"
    using same by (simp add: read_file_is_file text_at_def)
  show ?case
  proof (cases "is_line_of autodoc_marker (text_at (fs w) f)")
    case False
    with read Cons.IH [OF sub Cons.prems(2)] show ?thesis
      by (simp add: has_marker_line_iff)
  next
    case True
    obtain r w'' where g: "generate_example_doc cap docs_path f w' = (r, w'')"
      by (cases "generate_example_doc cap docs_path f w'")
    show ?thesis
    proof (cases r)
      case (Some e)
      with g read True show ?thesis by (simp add: has_marker_line_iff)
    next
      case None
      with g f assms(2) have "\<forall>q\<in>set paths. fs w'' q = fs w' q" by blast
      with Cons.prems(2) have "\<forall>q\<in>set paths. fs w'' q = fs w q" by simp
      from Cons.IH [OF sub this] g None read True show ?thesis
        by (simp add: has_marker_line_iff)
    qed
  qed
qed

text \<open>
  C5. All the files below the root can be read, and generating a document leaves them as
  they are. Then \<open>main\<close> calls \<open>generate_example_doc\<close>, in the order of the walk and
  until a call raises, for exactly the files below the root whose path ends in
  \<^verbatim>\<open>.enaml\<close>, whose text has the marker as a whole line and, when the white list is not
  empty, whose path ends in one of its entries; with an empty white list there is no such
  restriction.
\<close>

theorem main_generates_discovered:
  assumes "\<forall>p\<in>set (tree_paths base_path examples). is_file (fs w) p"
    and "\<forall>p\<in>set (tree_paths base_path examples). \<forall>w1 w2.
        generate_example_doc cap docs_path p w1 = (None, w2)
        \<longrightarrow> (\<forall>q\<in>set (tree_paths base_path examples). fs w2 q = fs w1 q)"
  shows "main cap docs_path base_path examples white_list w =
     generate_each cap docs_path (discovered white_list base_path examples (fs w)) w"
proof -
  let ?Q = "\<lambda>p. suffix ''.enaml'' p \<and> (white_list = [] \<or> (\<exists>x\<in>set white_list. suffix x p))"
  let ?files = "filter ?Q (tree_paths base_path examples)"
  have "main cap docs_path base_path examples white_list w
      = generate_files cap docs_path ?files w"
    by (simp add: main_def generate_walk_flat selected_walk_filter)
  also have "\<dots> = generate_each cap docs_path
      (filter (\<lambda>p. is_line_of autodoc_marker (text_at (fs w) p)) ?files) w"
    by (rule generate_files_each [OF assms]) simp_all
  also have "filter (\<lambda>p. is_line_of autodoc_marker (text_at (fs w) p)) ?files
      = discovered white_list base_path examples (fs w)"
    by (auto simp: discovered_def intro: filter_cong)
  finally show ?thesis .
qed

text \<open>
  With the capability \<open>snapshot_saved\<close> a call of \<open>generate_example_doc\<close> changes
  the file system at the cache directory, at the image and at the document only.
\<close>

lemma snapshot_saved_frame:
  assumes "generate_example_doc snapshot_saved docs_path p w1 = (None, w2)"
    and "q \<noteq> join (dirname p) ''__enamlcache__''"
    and "\<not> prefix (join (dirname p) ''__enamlcache__'' @ ''/'') q"
    and "q \<noteq> image_path_of docs_path (script_name_of p)"
    and "q \<noteq> rst_path_of docs_path (script_name_of p)"
  shows "fs w2 q = fs w1 q"
  using assms
  by (auto simp: generate_example_doc_def capture_step_def snapshot_saved_def Let_def print_def
      rmtree_def write_file_def
      split: sum.splits option.splits node.splits if_splits prod.splits)

lemma examples_preserved:
  "\<forall>p\<in>set (tree_paths examples_dir examples_tree). \<forall>w1 w2.
     generate_example_doc snapshot_saved docs_dir p w1 = (None, w2)
     \<longrightarrow> (\<forall>q\<in>set (tree_paths examples_dir examples_tree). fs w2 q = fs w1 q)"
proof (intro ballI allI impI)
  fix p w1 w2 q
  assume p: "p \<in> set (tree_paths examples_dir examples_tree)"
    and q: "q \<in> set (tree_paths examples_dir examples_tree)"
    and g: "generate_example_doc snapshot_saved docs_dir p w1 = (None, w2)"
  from p q show "fs w2 q = fs w1 q"
    unfolding examples_paths
    by (intro snapshot_saved_frame [OF g])
      (auto simp: script_name_of_def basename_def dirname_def slice_to_def py_find_def
        image_path_of_def script_image_name_of_def rst_path_of_def docs_dir_def join_def
        suffix_to_prefix)
qed

lemma examples_discovered:
  "discovered [] examples_dir examples_tree (fs examples_world)
     = [''/repo/examples/hello.enaml'', ''/repo/examples/widgets/slider.enaml'']"
  "discovered [''slider.enaml''] examples_dir examples_tree (fs examples_world)
     = [''/repo/examples/widgets/slider.enaml'']"
  by (simp_all add: discovered_def examples_paths has_marker_line_iff [symmetric]
      examples_world_def examples_marked suffix_to_prefix)

lemma slider_generated:
  "fst (generate_example_doc snapshot_saved docs_dir ''/repo/examples/widgets/slider.enaml''
      examples_world) = None"
  "stdout (snd (generate_example_doc snapshot_saved docs_dir
      ''/repo/examples/widgets/slider.enaml'' examples_world)) = [''generating doc for slider'']"
  "is_file (fs (snd (generate_example_doc snapshot_saved docs_dir
      ''/repo/examples/widgets/slider.enaml'' examples_world)))
      ''/repo/docs/source/examples/ex_slider.rst''"
  by (simp_all add: generate_example_doc_def capture_step_def snapshot_saved_def Let_def
      print_def rmtree_def write_file_def read_text_def read_file_def is_file_def
      slider_names examples_world_def examples_files_def
      extract_docstring_def str_split_def getitem_def triple_quote_def
      dirname_def join_def suffix_to_prefix split_beta)

theorem main_generates_discovered_witness:
  "list_all (is_file (fs examples_world)) (tree_paths examples_dir examples_tree)
   \<and> discovered [] examples_dir examples_tree (fs examples_world)
       = [''/repo/examples/hello.enaml'', ''/repo/examples/widgets/slider.enaml'']
   \<and> discovered [''slider.enaml''] examples_dir examples_tree (fs examples_world)
       = [''/repo/examples/widgets/slider.enaml'']
   \<and> main snapshot_saved docs_dir examples_dir examples_tree [''slider.enaml''] examples_world
       = generate_example_doc snapshot_saved docs_dir ''/repo/examples/widgets/slider.enaml''
           examples_world
   \<and> stdout (snd (main snapshot_saved docs_dir examples_dir examples_tree [''slider.enaml'']
         examples_world)) = [''generating doc for slider'']
   \<and> is_file (fs (snd (main snapshot_saved docs_dir examples_dir examples_tree
         [''slider.enaml''] examples_world))) ''/repo/docs/source/examples/ex_slider.rst''"
proof -
  have readable: "\<forall>p\<in>set (tree_paths examples_dir examples_tree). is_file (fs examples_world) p"
    by (simp add: examples_paths examples_is_file examples_world_def)
  from main_generates_discovered [OF readable examples_preserved, of "[''slider.enaml'']"]
  have "main snapshot_saved docs_dir examples_dir examples_tree [''slider.enaml''] examples_world
      = generate_each snapshot_saved docs_dir [''/repo/examples/widgets/slider.enaml'']
          examples_world"
    by (simp only: examples_discovered)
  also have "\<dots> = generate_example_doc snapshot_saved docs_dir
      ''/repo/examples/widgets/slider.enaml'' examples_world"
    using slider_generated(1)
    by (cases "generate_example_doc snapshot_saved docs_dir
      ''/repo/examples/widgets/slider.enaml'' examples_world") simp
  finally show ?thesis
    using readable examples_discovered slider_generated(2,3) by (simp add: list_all_iff)
qed

end
